theory Spec2Isabelle
  imports Main "HOL-Library.Word"
begin

text \<open>
  A shallow embedding of the JSON netlist frontend, \<^verbatim>\<open>frontends/json/jsonparse.cc\<close>:
  the recursive-descent parser in the constructor of \<^verbatim>\<open>JsonNode\<close>, the module importer
  \<^verbatim>\<open>json_import\<close> and the frontend entry point \<^verbatim>\<open>JsonFrontend::execute\<close>.
\<close>

section \<open>The JSON tree (struct JsonNode)\<close>

text \<open>
  A constructed node has one of the four type tags \<^verbatim>\<open>S\<close>, \<^verbatim>\<open>N\<close>, \<^verbatim>\<open>A\<close>, \<^verbatim>\<open>D\<close> and only the
  field of that tag is ever written, so a node is a value of a four-constructor datatype; the
  other fields keep their initial values and are read through the accessors below.
  \<^verbatim>\<open>data_number\<close> is a C++ \<^verbatim>\<open>int\<close>: a 32-bit word (the source's arithmetic overflows for
  numbers of ten digits and more; the word wraps). \<^verbatim>\<open>data_dict\<close> is kept as an association
  list in order of first insertion, with unique keys.
\<close>

datatype JsonNode =
    JString string
  | JNumber "32 word"
  | JArray "JsonNode list"
  | JDict "(string \<times> JsonNode) list"

text \<open>One constructor for every \<^verbatim>\<open>log_error\<close> call of the file.\<close>

datatype error =
    UnexpectedEOF_file
  | UnexpectedEOF_string
  | NonStringKey
  | UnexpectedCharacter char
  | ModuleRedefinition
  | PortsNotDict
  | PortNotDict
  | PortNoDirection
  | PortNoBits
  | PortNonStringDirection
  | PortNonArrayBits
  | PortInvalidDirection
  | PortInvalidBitString
  | PortInvalidBitValue
  | NetnamesNotDict
  | NetnameNotDict
  | NetnameNoBits
  | NetnameNonArrayBits
  | NetnameInvalidBitString
  | NetnameInvalidBitValue
  | CellsNotDict
  | CellNotDict
  | CellNoType
  | CellNonStringType
  | CellNoConnections
  | CellNonDictConnections
  | CellConnectionNotArray
  | CellInvalidBitString
  | CellInvalidBitValue
  | RootNotDict
  | ModulesNotDict

section \<open>The parser (JsonNode::JsonNode)\<close>

text \<open>
  The input stream is the list of characters not yet read: \<^verbatim>\<open>f.get()\<close> takes the head (and
  yields \<^verbatim>\<open>EOF\<close> on the empty list), \<^verbatim>\<open>f.unget()\<close> puts the character just read back.
  Every loop of the constructor is one recursive function; the functions return the rest of
  the stream with their result, or the error of the \<^verbatim>\<open>log_error\<close> call they reach.
\<close>

definition is_space :: "char \<Rightarrow> bool" where
  "is_space ch = (ch = CHR '' '' \<or> ch = CHR 0x09 \<or> ch = CHR 0x0D \<or> ch = CHR 0x0A)"

definition is_digit :: "char \<Rightarrow> bool" where
  "is_digit ch = (48 \<le> (of_char ch :: nat) \<and> (of_char ch :: nat) \<le> 57)"

definition digit_val :: "char \<Rightarrow> 32 word" where
  "digit_val ch = of_nat (of_char ch) - 48"

text \<open>Lines 51-69. The inner \<^verbatim>\<open>int ch\<close> of line 62 shadows the outer one, which is appended.\<close>

fun string_loop :: "string \<Rightarrow> string \<Rightarrow> error + (string \<times> string)" where
  "string_loop data_string [] = Inl UnexpectedEOF_string"
| "string_loop data_string (ch # f) =
     (if ch = CHR 0x22 then Inr (data_string, f)
      else if ch = CHR 0x5C then
        (case f of
           [] \<Rightarrow> Inl UnexpectedEOF_string
         | ch' # f' \<Rightarrow> string_loop (data_string @ [ch]) f')
      else string_loop (data_string @ [ch]) f)"

text \<open>Lines 79-92.\<close>

fun number_loop :: "32 word \<Rightarrow> string \<Rightarrow> 32 word \<times> string" where
  "number_loop data_number [] = (data_number, [])"
| "number_loop data_number (ch # f) =
     (if \<not> is_digit ch then (data_number, ch # f)
      else number_loop (data_number * 10 + digit_val ch) f)"

text \<open>Lines 141-153.\<close>

fun colon_loop :: "string \<Rightarrow> error + string" where
  "colon_loop [] = Inl UnexpectedEOF_file"
| "colon_loop (ch # f) =
     (if is_space ch \<or> ch = CHR '':'' then colon_loop f else Inr (ch # f))"

text \<open>\<^verbatim>\<open>data_dict[key] = value\<close>: the last write to a key wins.\<close>

fun dict_set :: "(string \<times> JsonNode) list \<Rightarrow> string \<Rightarrow> JsonNode \<Rightarrow> (string \<times> JsonNode) list" where
  "dict_set [] k v = [(k, v)]"
| "dict_set ((k', v') # d) k v = (if k' = k then (k, v) # d else (k', v') # dict_set d k v)"

text \<open>
  The constructor (lines 37-167), its array loop (lines 101-116) and its dictionary loop
  (lines 125-161). The key of a dictionary entry is checked to be a string only after the
  value has been parsed.
\<close>

function JsonNode_parse :: "string \<Rightarrow> error + (JsonNode \<times> string)"
  and array_loop :: "JsonNode list \<Rightarrow> string \<Rightarrow> error + (JsonNode list \<times> string)"
  and dict_loop :: "(string \<times> JsonNode) list \<Rightarrow> string \<Rightarrow> error + ((string \<times> JsonNode) list \<times> string)"
where
  "JsonNode_parse [] = Inl UnexpectedEOF_file"
| "JsonNode_parse (ch # f) =
     (if is_space ch then JsonNode_parse f
      else if ch = CHR 0x22 then
        (case string_loop [] f of
           Inl e \<Rightarrow> Inl e
         | Inr (s, f') \<Rightarrow> Inr (JString s, f'))
      else if is_digit ch then
        (case number_loop (digit_val ch) f of (n, f') \<Rightarrow> Inr (JNumber n, f'))
      else if ch = CHR ''['' then
        (case array_loop [] f of
           Inl e \<Rightarrow> Inl e
         | Inr (a, f') \<Rightarrow> Inr (JArray a, f'))
      else if ch = CHR ''{'' then
        (case dict_loop [] f of
           Inl e \<Rightarrow> Inl e
         | Inr (d, f') \<Rightarrow> Inr (JDict d, f'))
      else Inl (UnexpectedCharacter ch))"
| "array_loop data_array [] = Inl UnexpectedEOF_file"
| "array_loop data_array (ch # f) =
     (if is_space ch \<or> ch = CHR '','' then array_loop data_array f
      else if ch = CHR '']'' then Inr (data_array, f)
      else
        (case JsonNode_parse (ch # f) of
           Inl e \<Rightarrow> Inl e
         | Inr (v, f') \<Rightarrow> array_loop (data_array @ [v]) f'))"
| "dict_loop data_dict [] = Inl UnexpectedEOF_file"
| "dict_loop data_dict (ch # f) =
     (if is_space ch \<or> ch = CHR '','' then dict_loop data_dict f
      else if ch = CHR ''}'' then Inr (data_dict, f)
      else
        (case JsonNode_parse (ch # f) of
           Inl e \<Rightarrow> Inl e
         | Inr (key, f1) \<Rightarrow>
            (case colon_loop f1 of
               Inl e \<Rightarrow> Inl e
             | Inr f2 \<Rightarrow>
                (case JsonNode_parse f2 of
                   Inl e \<Rightarrow> Inl e
                 | Inr (val, f3) \<Rightarrow>
                    (case key of
                       JString k \<Rightarrow> dict_loop (dict_set data_dict k val) f3
                     | _ \<Rightarrow> Inl NonStringKey)))))"
  by pat_completeness auto

text \<open>
  Termination: every successful call returns a stream shorter than the one it was given.
\<close>

lemma string_loop_length:
  "string_loop acc f = Inr (s, r) \<Longrightarrow> length r < length f"
  by (induction acc f rule: string_loop.induct) (auto split: if_splits list.splits)

lemma number_loop_length:
  "number_loop n f = (m, r) \<Longrightarrow> length r \<le> length f"
  by (induction n f rule: number_loop.induct) (auto split: if_splits)

lemma colon_loop_length:
  "colon_loop f = Inr r \<Longrightarrow> length r \<le> length f"
  by (induction f rule: colon_loop.induct) (auto split: if_splits)

lemma parse_length_partial:
  "JsonNode_parse_array_loop_dict_loop_dom (Inl s) \<Longrightarrow>
     (\<And>v r. JsonNode_parse s = Inr (v, r) \<Longrightarrow> length r < length s)"
  "JsonNode_parse_array_loop_dict_loop_dom (Inr (Inl (a, s))) \<Longrightarrow>
     (\<And>x r. array_loop a s = Inr (x, r) \<Longrightarrow> length r < length s)"
  "JsonNode_parse_array_loop_dict_loop_dom (Inr (Inr (d, s))) \<Longrightarrow>
     (\<And>y r. dict_loop d s = Inr (y, r) \<Longrightarrow> length r < length s)"
proof (induction s and a s and d s rule: JsonNode_parse_array_loop_dict_loop.pinduct)
  case 1
  then show ?case by (simp add: JsonNode_parse.psimps)
next
  case (2 ch f)
  note dom = 2(1) and res = 2(5)
  show ?case
  proof (cases "is_space ch")
    case True
    with dom res have "JsonNode_parse f = Inr (v, r)" by (simp add: JsonNode_parse.psimps)
    from 2(2)[OF True this] show ?thesis by simp
  next
    case ns: False
    show ?thesis
    proof (cases "ch = CHR 0x22")
      case True
      with ns dom res show ?thesis
        by (auto simp: JsonNode_parse.psimps split: sum.splits dest: string_loop_length)
    next
      case nq: False
      show ?thesis
      proof (cases "is_digit ch")
        case True
        with ns nq dom res show ?thesis
          by (auto simp: JsonNode_parse.psimps split: prod.splits dest: number_loop_length)
      next
        case nd: False
        show ?thesis
        proof (cases "ch = CHR ''[''")
          case True
          with ns nq nd dom res obtain x where "array_loop [] f = Inr (x, r)"
            by (auto simp: JsonNode_parse.psimps split: sum.splits)
          from 2(3)[OF ns nq nd True this] show ?thesis by simp
        next
          case nb: False
          show ?thesis
          proof (cases "ch = CHR ''{''")
            case True
            with ns nq nd nb dom res obtain x where "dict_loop [] f = Inr (x, r)"
              by (auto simp: JsonNode_parse.psimps split: sum.splits)
            from 2(4)[OF ns nq nd nb True this] show ?thesis by simp
          next
            case False
            with ns nq nd nb dom res show ?thesis by (simp add: JsonNode_parse.psimps)
          qed
        qed
      qed
    qed
  qed
next
  case (3 a)
  then show ?case by (simp add: array_loop.psimps)
next
  case (4 a ch f)
  note dom = 4(1) and res = 4(5)
  show ?case
  proof (cases "is_space ch \<or> ch = CHR '',''")
    case True
    with dom res have "array_loop a f = Inr (x, r)" by (simp add: array_loop.psimps)
    from 4(2)[OF True this] show ?thesis by simp
  next
    case ns: False
    show ?thesis
    proof (cases "ch = CHR '']''")
      case True
      with ns dom res show ?thesis by (simp add: array_loop.psimps)
    next
      case nb: False
      with ns dom res obtain v f' where
        p: "JsonNode_parse (ch # f) = Inr (v, f')" and l: "array_loop (a @ [v]) f' = Inr (x, r)"
        by (auto simp: array_loop.psimps split: sum.splits)
      from 4(3)[OF ns nb p] have "length f' < length (ch # f)" .
      moreover from 4(4)[OF ns nb p refl l] have "length r < length f'" .
      ultimately show ?thesis by simp
    qed
  qed
next
  case (5 d)
  then show ?case by (simp add: dict_loop.psimps)
next
  case (6 d ch f)
  note dom = 6(1) and res = 6(6)
  show ?case
  proof (cases "is_space ch \<or> ch = CHR '',''")
    case True
    with dom res have "dict_loop d f = Inr (y, r)" by (simp add: dict_loop.psimps)
    from 6(2)[OF True this] show ?thesis by simp
  next
    case ns: False
    show ?thesis
    proof (cases "ch = CHR ''}''")
      case True
      with ns dom res show ?thesis by (simp add: dict_loop.psimps)
    next
      case nb: False
      with ns dom res obtain key f1 f2 val f3 k where
        p1: "JsonNode_parse (ch # f) = Inr (key, f1)" and c: "colon_loop f1 = Inr f2"
        and p2: "JsonNode_parse f2 = Inr (val, f3)" and k: "key = JString k"
        and l: "dict_loop (dict_set d k val) f3 = Inr (y, r)"
        by (auto simp: dict_loop.psimps split: sum.splits JsonNode.splits)
      from 6(3)[OF ns nb p1] have "length f1 < length (ch # f)" .
      moreover from colon_loop_length[OF c] have "length f2 \<le> length f1" .
      moreover from 6(4)[OF ns nb p1 refl c p2] have "length f3 < length f2" .
      moreover from 6(5)[OF ns nb p1 refl c p2 refl k l] have "length r < length f3" .
      ultimately show ?thesis by simp
    qed
  qed
qed

termination JsonNode_parse
proof (relation "measure (\<lambda>x. case x of
          Inl s \<Rightarrow> 2 * length s
        | Inr (Inl (a, s)) \<Rightarrow> 2 * length s + 1
        | Inr (Inr (d, s)) \<Rightarrow> 2 * length s + 1)", goal_cases)
  case 1 show ?case by simp
next
  case 2 then show ?case by simp
next
  case 3 then show ?case by simp
next
  case 4 then show ?case by simp
next
  case 5 then show ?case by simp
next
  case 6 then show ?case by simp
next
  case (7 data_array ch f x v f')
  then show ?case using parse_length_partial(1)[of "ch # f" v f'] by simp
next
  case 8 then show ?case by simp
next
  case 9 then show ?case by simp
next
  case (10 data_dict ch f x key f1 f2)
  then show ?case
    using parse_length_partial(1)[of "ch # f" key f1] colon_loop_length[of f1 f2] by simp
next
  case (11 data_dict ch f x key f1 f2 x' val f3 k)
  then show ?case
    using parse_length_partial(1)[of "ch # f" key f1] colon_loop_length[of f1 f2]
      parse_length_partial(1)[of f2 val f3] by simp
qed


subsection \<open>Field accessors of a parsed node\<close>

fun node_type :: "JsonNode \<Rightarrow> char" where
  "node_type (JString s) = CHR ''S''"
| "node_type (JNumber n) = CHR ''N''"
| "node_type (JArray a) = CHR ''A''"
| "node_type (JDict d) = CHR ''D''"

fun data_string :: "JsonNode \<Rightarrow> string" where
  "data_string (JString s) = s"
| "data_string n = []"

fun data_number :: "JsonNode \<Rightarrow> 32 word" where
  "data_number (JNumber n) = n"
| "data_number n = 0"

fun data_array :: "JsonNode \<Rightarrow> JsonNode list" where
  "data_array (JArray a) = a"
| "data_array n = []"

fun data_dict :: "JsonNode \<Rightarrow> (string \<times> JsonNode) list" where
  "data_dict (JDict d) = d"
| "data_dict n = []"

section \<open>The netlist graph (host interface)\<close>

text \<open>
  The RTLIL kernel (\<^verbatim>\<open>kernel/yosys.h\<close>) is not part of the frontend. A wire is addressed by
  its name within the module, so a \<^verbatim>\<open>SigBit\<close> is a constant or a wire name with an offset.
\<close>

datatype State = S0 | S1 | Sx | Sz

type_synonym IdString = string

datatype SigBit = Const State | WireBit IdString nat

type_synonym SigSpec = "SigBit list"

record Wire =
  wire_width :: nat
  port_input :: bool
  port_output :: bool

record Cell =
  cell_type :: IdString
  cell_connections :: "IdString \<rightharpoonup> SigSpec"

record Module =
  mod_name :: IdString
  wires :: "IdString \<rightharpoonup> Wire"
  cells :: "IdString \<rightharpoonup> Cell"
  connections :: "(SigBit \<times> SigBit) list"
  ports :: "IdString list"

type_synonym Design = "IdString \<rightharpoonup> Module"

text \<open>
  What the frontend takes from the kernel without fixing it: \<^verbatim>\<open>RTLIL::escape_id\<close>, the name
  \<^verbatim>\<open>NEW_ID\<close> makes from the global counter, the order in which a \<^verbatim>\<open>dict\<close> is iterated, and
  the port layout computed by \<^verbatim>\<open>fixup_ports\<close>.
\<close>

record host =
  escape_id :: "string \<Rightarrow> IdString"
  new_id :: "nat \<Rightarrow> IdString"
  dict_order :: "(string \<times> JsonNode) list \<Rightarrow> (string \<times> JsonNode) list"
  port_layout :: "Module \<Rightarrow> IdString list"

text \<open>
  Modelled from the spec: create-module, the constructor of \<^verbatim>\<open>RTLIL::Module\<close> (kernel): a
  module with a name and nothing else.
\<close>

definition new_Module :: "IdString \<Rightarrow> Module" where
  "new_Module n = \<lparr>mod_name = n, wires = Map.empty, cells = Map.empty,
                   connections = [], ports = []\<rparr>"

text \<open>
  Modelled from the spec: add-wire, \<^verbatim>\<open>Module::addWire\<close> (kernel): a wire of the given width
  that is no port. The kernel's assertion that the name is not taken is not part of the
  model: a second wire of a name replaces the first.
\<close>

definition new_Wire :: "nat \<Rightarrow> Wire" where
  "new_Wire w = \<lparr>wire_width = w, port_input = False, port_output = False\<rparr>"

definition addWire :: "Module \<Rightarrow> IdString \<Rightarrow> nat \<Rightarrow> Module" where
  "addWire m n w = m\<lparr>wires := (wires m)(n \<mapsto> new_Wire w)\<rparr>"

text \<open>
  Lines 225-228 and 302-305: \<^verbatim>\<open>module->wire(name)\<close> (get-wire of the spec), and
  \<^verbatim>\<open>addWire\<close> when there is no such wire.
\<close>

definition wire_or_add :: "Module \<Rightarrow> IdString \<Rightarrow> nat \<Rightarrow> Wire \<times> Module" where
  "wire_or_add m n w =
     (case wires m n of
        None \<Rightarrow> (new_Wire w, addWire m n w)
      | Some wire \<Rightarrow> (wire, m))"

text \<open>
  Modelled from the spec: connect(dst, src), \<^verbatim>\<open>Module::connect\<close> (kernel): one more
  connection, its first component driven by its second.
\<close>

definition connect :: "Module \<Rightarrow> SigBit \<Rightarrow> SigBit \<Rightarrow> Module" where
  "connect m lhs rhs = m\<lparr>connections := connections m @ [(lhs, rhs)]\<rparr>"

text \<open>
  Modelled from the spec: add-cell, \<^verbatim>\<open>Module::addCell\<close> (kernel): a cell of the given type
  without connections.
\<close>

definition addCell :: "Module \<Rightarrow> IdString \<Rightarrow> IdString \<Rightarrow> Module" where
  "addCell m n t = m\<lparr>cells := (cells m)(n \<mapsto> \<lparr>cell_type = t, cell_connections = Map.empty\<rparr>)\<rparr>"

text \<open>
  Modelled from the spec: set-cell-connection, \<^verbatim>\<open>Cell::setPort\<close> (kernel), on the cell of
  the given name.
\<close>

definition setPort :: "Module \<Rightarrow> IdString \<Rightarrow> IdString \<Rightarrow> SigSpec \<Rightarrow> Module" where
  "setPort m cell_name conn_name sig =
     (case cells m cell_name of
        None \<Rightarrow> m
      | Some c \<Rightarrow> m\<lparr>cells := (cells m)(cell_name \<mapsto>
                       c\<lparr>cell_connections := (cell_connections c)(conn_name \<mapsto> sig)\<rparr>)\<rparr>)"

text \<open>
  Modelled from the spec: finalize-ports, \<^verbatim>\<open>Module::fixup_ports\<close> (kernel): it writes the
  port layout and nothing else.
\<close>

definition fixup_ports :: "host \<Rightarrow> Module \<Rightarrow> Module" where
  "fixup_ports h m = m\<lparr>ports := port_layout h m\<rparr>"

section \<open>Module import (json_import)\<close>

text \<open>
  The state of one call of \<^verbatim>\<open>json_import\<close>: the module under construction, the table
  \<^verbatim>\<open>signal_bits\<close> and the counter behind \<^verbatim>\<open>NEW_ID\<close>.
\<close>

record import_state =
  module :: Module
  signal_bits :: "32 word \<rightharpoonup> SigBit"
  autoidx :: nat

definition connect_st :: "import_state \<Rightarrow> SigBit \<Rightarrow> SigBit \<Rightarrow> import_state" where
  "connect_st st lhs rhs = st\<lparr>module := connect (module st) lhs rhs\<rparr>"

text \<open>
  A range-based \<^verbatim>\<open>for\<close> loop over the entries of a dictionary, and a counting \<^verbatim>\<open>for\<close> loop
  over the elements of an array; a \<^verbatim>\<open>log_error\<close> in the body ends the loop.
\<close>

fun for_each :: "('a \<Rightarrow> 's \<Rightarrow> error + 's) \<Rightarrow> 'a list \<Rightarrow> 's \<Rightarrow> error + 's" where
  "for_each body [] st = Inr st"
| "for_each body (x # xs) st =
     (case body x st of Inl e \<Rightarrow> Inl e | Inr st' \<Rightarrow> for_each body xs st')"

fun for_index :: "(nat \<Rightarrow> 'a \<Rightarrow> 's \<Rightarrow> error + 's) \<Rightarrow> nat \<Rightarrow> 'a list \<Rightarrow> 's \<Rightarrow> error + 's" where
  "for_index body i [] st = Inr st"
| "for_index body i (x # xs) st =
     (case body i x st of Inl e \<Rightarrow> Inl e | Inr st' \<Rightarrow> for_index body (Suc i) xs st')"

subsection \<open>Ports\<close>

text \<open>Lines 243-272: one bit of a port. \<^verbatim>\<open>port_wire\<close> carries the flags of the wire.\<close>

definition port_bit :: "IdString \<Rightarrow> Wire \<Rightarrow> nat \<Rightarrow> JsonNode \<Rightarrow> import_state \<Rightarrow> error + import_state" where
  "port_bit port_name port_wire i bitval_node st =
     (let sigbit = WireBit port_name i in
      if node_type bitval_node = CHR ''S'' then
        if data_string bitval_node = ''0'' then Inr (connect_st st sigbit (Const S0))
        else if data_string bitval_node = ''1'' then Inr (connect_st st sigbit (Const S1))
        else if data_string bitval_node = ''x'' then Inr (connect_st st sigbit (Const Sx))
        else if data_string bitval_node = ''z'' then Inr (connect_st st sigbit (Const Sz))
        else Inl PortInvalidBitString
      else if node_type bitval_node = CHR ''N'' then
        (let bitidx = data_number bitval_node in
         case signal_bits st bitidx of
           Some rep \<Rightarrow>
             if port_output port_wire then Inr (connect_st st sigbit rep)
             else Inr ((connect_st st rep sigbit)\<lparr>signal_bits := (signal_bits st)(bitidx \<mapsto> sigbit)\<rparr>)
         | None \<Rightarrow> Inr (st\<lparr>signal_bits := (signal_bits st)(bitidx \<mapsto> sigbit)\<rparr>))
      else Inl PortInvalidBitValue)"

text \<open>Lines 230-239.\<close>

definition set_direction :: "string \<Rightarrow> Wire \<Rightarrow> error + Wire" where
  "set_direction dir port_wire =
     (if dir = ''input'' then Inr (port_wire\<lparr>port_input := True\<rparr>)
      else if dir = ''output'' then Inr (port_wire\<lparr>port_output := True\<rparr>)
      else if dir = ''inout'' then Inr (port_wire\<lparr>port_output := True\<rparr>)
      else Inl PortInvalidDirection)"

text \<open>Lines 204-273: one entry of the ports dictionary.\<close>

definition import_port :: "host \<Rightarrow> string \<times> JsonNode \<Rightarrow> import_state \<Rightarrow> error + import_state" where
  "import_port h port st =
     (let port_name = escape_id h (fst port); port_node = snd port in
      if node_type port_node \<noteq> CHR ''D'' then Inl PortNotDict
      else case map_of (data_dict port_node) ''direction'' of
        None \<Rightarrow> Inl PortNoDirection
      | Some port_direction_node \<Rightarrow>
      case map_of (data_dict port_node) ''bits'' of
        None \<Rightarrow> Inl PortNoBits
      | Some port_bits_node \<Rightarrow>
      if node_type port_direction_node \<noteq> CHR ''S'' then Inl PortNonStringDirection
      else if node_type port_bits_node \<noteq> CHR ''A'' then Inl PortNonArrayBits
      else
        (let (w, m) = wire_or_add (module st) port_name (length (data_array port_bits_node))
         in case set_direction (data_string port_direction_node) w of
              Inl e \<Rightarrow> Inl e
            | Inr port_wire \<Rightarrow>
                for_index (port_bit port_name port_wire) 0 (data_array port_bits_node)
                  (st\<lparr>module := m\<lparr>wires := (wires m)(port_name \<mapsto> port_wire)\<rparr>\<rparr>)))"

text \<open>Lines 195-277.\<close>

definition import_ports :: "host \<Rightarrow> JsonNode \<Rightarrow> import_state \<Rightarrow> error + import_state" where
  "import_ports h node st =
     (case map_of (data_dict node) ''ports'' of
        None \<Rightarrow> Inr st
      | Some ports_node \<Rightarrow>
          if node_type ports_node \<noteq> CHR ''D'' then Inl PortsNotDict
          else case for_each (import_port h) (dict_order h (data_dict ports_node)) st of
                 Inl e \<Rightarrow> Inl e
               | Inr st' \<Rightarrow> Inr (st'\<lparr>module := fixup_ports h (module st')\<rparr>))"

subsection \<open>Netnames\<close>

text \<open>Lines 309-334.\<close>

definition netname_bit :: "IdString \<Rightarrow> nat \<Rightarrow> JsonNode \<Rightarrow> import_state \<Rightarrow> error + import_state" where
  "netname_bit net_name i bitval_node st =
     (let sigbit = WireBit net_name i in
      if node_type bitval_node = CHR ''S'' then
        if data_string bitval_node = ''0'' then Inr (connect_st st sigbit (Const S0))
        else if data_string bitval_node = ''1'' then Inr (connect_st st sigbit (Const S1))
        else if data_string bitval_node = ''x'' then Inr (connect_st st sigbit (Const Sx))
        else if data_string bitval_node = ''z'' then Inr (connect_st st sigbit (Const Sz))
        else Inl NetnameInvalidBitString
      else if node_type bitval_node = CHR ''N'' then
        (let bitidx = data_number bitval_node in
         case signal_bits st bitidx of
           Some rep \<Rightarrow>
             if sigbit \<noteq> rep then Inr (connect_st st sigbit rep) else Inr st
         | None \<Rightarrow> Inr (st\<lparr>signal_bits := (signal_bits st)(bitidx \<mapsto> sigbit)\<rparr>))
      else Inl NetnameInvalidBitValue)"

text \<open>Lines 288-335: one entry of the netnames dictionary.\<close>

definition import_netname :: "host \<Rightarrow> string \<times> JsonNode \<Rightarrow> import_state \<Rightarrow> error + import_state" where
  "import_netname h net st =
     (let net_name = escape_id h (fst net); net_node = snd net in
      if node_type net_node \<noteq> CHR ''D'' then Inl NetnameNotDict
      else case map_of (data_dict net_node) ''bits'' of
        None \<Rightarrow> Inl NetnameNoBits
      | Some bits_node \<Rightarrow>
      if node_type bits_node \<noteq> CHR ''A'' then Inl NetnameNonArrayBits
      else
        (let (w, m) = wire_or_add (module st) net_name (length (data_array bits_node))
         in for_index (netname_bit net_name) 0 (data_array bits_node) (st\<lparr>module := m\<rparr>)))"

text \<open>Lines 279-339.\<close>

definition import_netnames :: "host \<Rightarrow> JsonNode \<Rightarrow> import_state \<Rightarrow> error + import_state" where
  "import_netnames h node st =
     (case map_of (data_dict node) ''netnames'' of
        None \<Rightarrow> Inr st
      | Some netnames_node \<Rightarrow>
          if node_type netnames_node \<noteq> CHR ''D'' then Inl NetnamesNotDict
          else for_each (import_netname h) (dict_order h (data_dict netnames_node)) st)"

subsection \<open>Cells\<close>

text \<open>Lines 388-410: one element of a connection; \<^verbatim>\<open>sig\<close> is the vector built so far.\<close>

definition cell_bit :: "host \<Rightarrow> JsonNode \<Rightarrow> import_state \<times> SigSpec \<Rightarrow> error + (import_state \<times> SigSpec)" where
  "cell_bit h bitval_node stsig =
     (let st = fst stsig; sig = snd stsig in
      if node_type bitval_node = CHR ''S'' then
        if data_string bitval_node = ''0'' then Inr (st, sig @ [Const S0])
        else if data_string bitval_node = ''1'' then Inr (st, sig @ [Const S1])
        else if data_string bitval_node = ''x'' then Inr (st, sig @ [Const Sx])
        else if data_string bitval_node = ''z'' then Inr (st, sig @ [Const Sz])
        else Inl CellInvalidBitString
      else if node_type bitval_node = CHR ''N'' then
        (let bitidx = data_number bitval_node in
         case signal_bits st bitidx of
           None \<Rightarrow>
             (let w = new_id h (autoidx st);
                  st' = st\<lparr>module := addWire (module st) w 1,
                          signal_bits := (signal_bits st)(bitidx \<mapsto> WireBit w 0),
                          autoidx := Suc (autoidx st)\<rparr>
              in Inr (st', sig @ [WireBit w 0]))
         | Some rep \<Rightarrow> Inr (st, sig @ [rep]))
      else Inl CellInvalidBitValue)"

text \<open>Lines 378-414: one connection of a cell.\<close>

definition import_connection :: "host \<Rightarrow> IdString \<Rightarrow> string \<times> JsonNode \<Rightarrow> import_state \<Rightarrow> error + import_state" where
  "import_connection h cell_name conn st =
     (let conn_name = escape_id h (fst conn); conn_node = snd conn in
      if node_type conn_node \<noteq> CHR ''A'' then Inl CellConnectionNotArray
      else case for_each (cell_bit h) (data_array conn_node) (st, []) of
             Inl e \<Rightarrow> Inl e
           | Inr (st', sig) \<Rightarrow> Inr (st'\<lparr>module := setPort (module st') cell_name conn_name sig\<rparr>))"

text \<open>Lines 350-415: one entry of the cells dictionary.\<close>

definition import_cell :: "host \<Rightarrow> string \<times> JsonNode \<Rightarrow> import_state \<Rightarrow> error + import_state" where
  "import_cell h cell_node_it st =
     (let cell_name = escape_id h (fst cell_node_it); cell_node = snd cell_node_it in
      if node_type cell_node \<noteq> CHR ''D'' then Inl CellNotDict
      else case map_of (data_dict cell_node) ''type'' of
        None \<Rightarrow> Inl CellNoType
      | Some type_node \<Rightarrow>
      if node_type type_node \<noteq> CHR ''S'' then Inl CellNonStringType
      else
        (let cell_type = escape_id h (data_string type_node);
             st1 = st\<lparr>module := addCell (module st) cell_name cell_type\<rparr>
         in case map_of (data_dict cell_node) ''connections'' of
              None \<Rightarrow> Inl CellNoConnections
            | Some connections_node \<Rightarrow>
                if node_type connections_node \<noteq> CHR ''D'' then Inl CellNonDictConnections
                else for_each (import_connection h cell_name)
                       (dict_order h (data_dict connections_node)) st1))"

text \<open>Lines 341-420.\<close>

definition import_cells :: "host \<Rightarrow> JsonNode \<Rightarrow> import_state \<Rightarrow> error + import_state" where
  "import_cells h node st =
     (case map_of (data_dict node) ''cells'' of
        None \<Rightarrow> Inr st
      | Some cells_node \<Rightarrow>
          if node_type cells_node \<noteq> CHR ''D'' then Inl CellsNotDict
          else for_each (import_cell h) (dict_order h (data_dict cells_node)) st)"

subsection \<open>json_import and the frontend\<close>

text \<open>The design and the global counter \<^verbatim>\<open>autoidx\<close>.\<close>

record yosys_state =
  design :: Design
  global_autoidx :: nat

text \<open>
  Lines 179-421. The module is entered into the design at once and filled in place; a
  \<^verbatim>\<open>log_error\<close> ends the whole import, so the result of a failed import is its error.
\<close>

definition json_import :: "host \<Rightarrow> string \<times> JsonNode \<Rightarrow> yosys_state \<Rightarrow> error + yosys_state" where
  "json_import h it ys =
     (let modname = fst it; node = snd it; mname = escape_id h modname in
      if design ys mname \<noteq> None then Inl ModuleRedefinition
      else
        (let st0 = \<lparr>module = new_Module mname, signal_bits = Map.empty,
                    autoidx = global_autoidx ys\<rparr>
         in case import_ports h node st0 of
              Inl e \<Rightarrow> Inl e
            | Inr st1 \<Rightarrow>
           case import_netnames h node st1 of
              Inl e \<Rightarrow> Inl e
            | Inr st2 \<Rightarrow>
           case import_cells h node st2 of
              Inl e \<Rightarrow> Inl e
            | Inr st3 \<Rightarrow>
                Inr (ys\<lparr>design := (design ys)(mname \<mapsto> module st3),
                        global_autoidx := autoidx st3\<rparr>)))"

text \<open>
  Lines 450-464, after the arguments have been read and the input file opened. What
  follows the root value in the stream is not read.
\<close>

definition execute :: "host \<Rightarrow> string \<Rightarrow> yosys_state \<Rightarrow> error + yosys_state" where
  "execute h f ys =
     (case JsonNode_parse f of
        Inl e \<Rightarrow> Inl e
      | Inr (root, f') \<Rightarrow>
          if node_type root \<noteq> CHR ''D'' then Inl RootNotDict
          else case map_of (data_dict root) ''modules'' of
                 None \<Rightarrow> Inr ys
               | Some modules \<Rightarrow>
                   if node_type modules \<noteq> CHR ''D'' then Inl ModulesNotDict
                   else for_each (json_import h) (dict_order h (data_dict modules)) ys)"


section \<open>Error classes of the specification\<close>

text \<open>
  The specification names classes of errors where the code has messages. A parse error is
  an error of the parser (unexpected end of input, unexpected character, a key that is no
  string); a malformed-port error is the absence of \<^verbatim>\<open>direction\<close> as a string or of \<^verbatim>\<open>bits\<close>
  as an array in a port object.
\<close>

definition ParseError :: "error \<Rightarrow> bool" where
  "ParseError e = (e = UnexpectedEOF_file \<or> e = UnexpectedEOF_string \<or> e = NonStringKey
                   \<or> (\<exists>ch. e = UnexpectedCharacter ch))"

definition UnexpectedEOF :: "error \<Rightarrow> bool" where
  "UnexpectedEOF e = (e = UnexpectedEOF_file \<or> e = UnexpectedEOF_string)"

definition MalformedPortError :: "error \<Rightarrow> bool" where
  "MalformedPortError e = (e = PortNoDirection \<or> e = PortNoBits
                           \<or> e = PortNonStringDirection \<or> e = PortNonArrayBits)"

section \<open>Example inputs\<close>

text \<open>
  Two instances of the kernel's part: \<^verbatim>\<open>escape_id\<close> puts a backslash before the name, and
  dictionaries are iterated from the last entry to the first, or from the first to the last.
\<close>

definition example_host :: host where
  "example_host = \<lparr>escape_id = (\<lambda>s. CHR 0x5C # s),
                    new_id = (\<lambda>n. ''$auto$'' @ replicate n (CHR ''i'')),
                    dict_order = rev,
                    port_layout = (\<lambda>m. [])\<rparr>"

definition empty_design :: yosys_state where
  "empty_design = \<lparr>design = Map.empty, global_autoidx = 0\<rparr>"

definition port_a :: "string \<times> JsonNode" where
  "port_a = (''a'', JDict [(''direction'', JString ''input''), (''bits'', JArray [JNumber 1])])"



definition ordered_host :: host where
  "ordered_host = example_host\<lparr>dict_order := (\<lambda>d. d)\<rparr>"

definition table_state :: import_state where
  "table_state = \<lparr>module = new_Module ''m'', signal_bits = [1 \<mapsto> WireBit ''a'' 0], autoidx = 0\<rparr>"



definition netnames_example :: JsonNode where
  "netnames_example = JDict [(''netnames'', JDict
      [(''n'', JDict [(''bits'', JArray [JNumber 1, JNumber 2])]),
       (''a'', JDict [(''bits'', JArray [JNumber 1])])])]"

definition net_state :: import_state where
  "net_state = \<lparr>module = new_Module ''m'',
                  signal_bits = [1 \<mapsto> WireBit (escape_id ordered_host ''a'') 0], autoidx = 0\<rparr>"

definition net_state' :: import_state where
  "net_state' = net_state\<lparr>module :=
       connect (addWire (addWire (module net_state) (escape_id ordered_host ''n'') 2)
                  (escape_id ordered_host ''a'') 1)
         (WireBit (escape_id ordered_host ''n'') 0) (WireBit (escape_id ordered_host ''a'') 0),
       signal_bits := (signal_bits net_state)(2 \<mapsto> WireBit (escape_id ordered_host ''n'') 1)\<rparr>"

definition port_state :: import_state where
  "port_state = \<lparr>module = new_Module ''m'', signal_bits = Map.empty, autoidx = 0\<rparr>"



definition scenario_D :: string where
  "scenario_D = ''{\"modules\":{\"top\":{\"ports\":{\"o\":{\"bits\":[1]}}}}}''"

definition scenario_D_tree :: JsonNode where
  "scenario_D_tree = JDict [(''modules'', JDict [(''top'', JDict [(''ports'', JDict
       [(''o'', JDict [(''bits'', JArray [JNumber 1])])])])])]"

definition scenario_C :: string where
  "scenario_C = ''{\"modules\":{\"top\":{\"ports\":{\"o\":{\"direction\":\"output\",\"bits\":[\"1\",\"0\"]}}}}}''"

definition scenario_C_tree :: JsonNode where
  "scenario_C_tree = JDict [(''modules'', JDict [(''top'', JDict [(''ports'', JDict
       [(''o'', JDict [(''direction'', JString ''output''),
                       (''bits'', JArray [JString ''1'', JString ''0''])])])])])]"

text \<open>A number ends where the input ends or a character that is no digit stands.\<close>

definition number_end :: "JsonNode \<Rightarrow> string \<Rightarrow> bool" where
  "number_end v t = (node_type v = CHR ''N'' \<longrightarrow> t = [] \<or> \<not> is_digit (hd t))"

definition port_a_state :: import_state where
  "port_a_state = port_state\<lparr>
     module := (new_Module ''m'')\<lparr>wires :=
        [escape_id example_host ''a'' \<mapsto> \<lparr>wire_width = 1, port_input = True, port_output = False\<rparr>]\<rparr>,
     signal_bits := [1 \<mapsto> WireBit (escape_id example_host ''a'') 0]\<rparr>"





section \<open>The string loop\<close>

text \<open>
  C2: when the string loop reads a backslash, the character after it is taken from the
  stream and dropped, and the backslash itself is appended to the string; a backslash at
  the end of the input is an unexpected end of file. So the six characters
  \<^verbatim>\<open>"a\nb"\<close> (with one backslash) give the string of \<^verbatim>\<open>a\<close>, the backslash and \<^verbatim>\<open>b\<close>.
\<close>

theorem string_loop_backslash:
  "string_loop acc (CHR 0x5C # ch # f) = string_loop (acc @ [CHR 0x5C]) f
   \<and> string_loop acc [CHR 0x5C] = Inl UnexpectedEOF_string
   \<and> JsonNode_parse [CHR 0x22, CHR ''a'', CHR 0x5C, CHR ''n'', CHR ''b'', CHR 0x22]
       = Inr (JString [CHR ''a'', CHR 0x5C, CHR ''b''], [])"
  by (simp add: is_space_def)

section \<open>The ports phase\<close>




section \<open>The cells phase\<close>




section \<open>Loops over entries and bits\<close>

lemma for_each_invariant:
  assumes step: "\<And>x s s'. body x s = Inr s' \<Longrightarrow> P s \<Longrightarrow> P s'"
  shows "for_each body xs s = Inr s' \<Longrightarrow> P s \<Longrightarrow> P s'"
proof (induction xs arbitrary: s)
  case Nil
  then show ?case by simp
next
  case (Cons x xs)
  from Cons.prems(1) obtain s1 where b: "body x s = Inr s1" and r: "for_each body xs s1 = Inr s'"
    by (auto split: sum.splits)
  from step[OF b Cons.prems(2)] have "P s1" .
  from Cons.IH[OF r this] show ?case .
qed

lemma for_index_invariant:
  assumes step: "\<And>i x s s'. body i x s = Inr s' \<Longrightarrow> P s \<Longrightarrow> P s'"
  shows "for_index body i xs s = Inr s' \<Longrightarrow> P s \<Longrightarrow> P s'"
proof (induction xs arbitrary: s i)
  case Nil
  then show ?case by simp
next
  case (Cons x xs)
  from Cons.prems(1) obtain s1 where b: "body i x s = Inr s1"
    and r: "for_index body (Suc i) xs s1 = Inr s'"
    by (auto split: sum.splits)
  from step[OF b Cons.prems(2)] have "P s1" .
  from Cons.IH[OF r this] show ?case .
qed

section \<open>The netnames phase\<close>

lemma netname_bit_keeps:
  "netname_bit n i b st = Inr st' \<Longrightarrow> signal_bits st k = Some r \<Longrightarrow> signal_bits st' k = Some r"
  by (auto simp: netname_bit_def connect_st_def Let_def split: if_splits option.splits)

lemma import_netname_keeps:
  assumes "import_netname h net st = Inr st'" and "signal_bits st k = Some r"
  shows "signal_bits st' k = Some r"
proof -
  from assms(1) obtain bits_node m where
    loop: "for_index (netname_bit (escape_id h (fst net))) 0 (data_array bits_node)
             (st\<lparr>module := m\<rparr>) = Inr st'"
    by (auto simp: import_netname_def Let_def split: if_splits option.splits prod.splits)
  show ?thesis
    by (rule for_index_invariant[where P = "\<lambda>s. signal_bits s k = Some r", OF _ loop])
       (auto intro: netname_bit_keeps simp: assms(2))
qed

lemma import_netnames_keeps:
  assumes "import_netnames h node st = Inr st'" and "signal_bits st k = Some r"
  shows "signal_bits st' k = Some r"
proof (cases "map_of (data_dict node) ''netnames''")
  case None
  with assms show ?thesis by (simp add: import_netnames_def)
next
  case (Some nn)
  with assms(1) have loop: "for_each (import_netname h) (dict_order h (data_dict nn)) st = Inr st'"
    by (simp add: import_netnames_def split: if_splits)
  show ?thesis
    by (rule for_each_invariant[where P = "\<lambda>s. signal_bits s k = Some r", OF _ loop])
       (auto intro: import_netname_keeps simp: assms(2))
qed

text \<open>
  C4: in the netnames phase, a bit whose id is already in the table is connected as driven
  by the representative when the two differ, and nothing is connected when they are the same
  bit; the table is left as it is in both cases. An id that is not in the table gets the bit
  of the wire as its representative. No entry of the table is replaced anywhere in the
  netnames phase.
\<close>

theorem netname_bit_never_replaces:
  "(signal_bits st bitidx = Some rep \<and> rep \<noteq> WireBit net_name i \<longrightarrow>
      netname_bit net_name i (JNumber bitidx) st = Inr (connect_st st (WireBit net_name i) rep)
      \<and> signal_bits (connect_st st (WireBit net_name i) rep) = signal_bits st)
   \<and> (signal_bits st bitidx = Some (WireBit net_name i) \<longrightarrow>
      netname_bit net_name i (JNumber bitidx) st = Inr st)
   \<and> (signal_bits st bitidx = None \<longrightarrow>
      netname_bit net_name i (JNumber bitidx) st
        = Inr (st\<lparr>signal_bits := (signal_bits st)(bitidx \<mapsto> WireBit net_name i)\<rparr>))
   \<and> (import_netnames h node st = Inr st' \<and> signal_bits st k = Some r \<longrightarrow>
      signal_bits st' k = Some r)"
proof (intro conjI)
  show "signal_bits st bitidx = Some rep \<and> rep \<noteq> WireBit net_name i \<longrightarrow>
      netname_bit net_name i (JNumber bitidx) st = Inr (connect_st st (WireBit net_name i) rep)
      \<and> signal_bits (connect_st st (WireBit net_name i) rep) = signal_bits st"
    by (auto simp: netname_bit_def connect_st_def Let_def)
  show "signal_bits st bitidx = Some (WireBit net_name i) \<longrightarrow>
      netname_bit net_name i (JNumber bitidx) st = Inr st"
    by (simp add: netname_bit_def Let_def)
  show "signal_bits st bitidx = None \<longrightarrow>
      netname_bit net_name i (JNumber bitidx) st
        = Inr (st\<lparr>signal_bits := (signal_bits st)(bitidx \<mapsto> WireBit net_name i)\<rparr>)"
    by (simp add: netname_bit_def Let_def)
  show "import_netnames h node st = Inr st' \<and> signal_bits st k = Some r \<longrightarrow>
      signal_bits st' k = Some r"
    using import_netnames_keeps by blast
qed

theorem netname_bit_never_replaces_witness:
  "signal_bits table_state 1 = Some (WireBit ''a'' 0) \<and> WireBit ''a'' 0 \<noteq> WireBit ''n'' 0
   \<and> netname_bit ''n'' 0 (JNumber 1) table_state
       = Inr (connect_st table_state (WireBit ''n'' 0) (WireBit ''a'' 0))
   \<and> signal_bits (connect_st table_state (WireBit ''n'' 0) (WireBit ''a'' 0))
       = signal_bits table_state
   \<and> netname_bit ''a'' 0 (JNumber 1) table_state = Inr table_state
   \<and> signal_bits table_state 2 = None
   \<and> netname_bit ''n'' 1 (JNumber 2) table_state
       = Inr (table_state\<lparr>signal_bits := (signal_bits table_state)(2 \<mapsto> WireBit ''n'' 1)\<rparr>)
   \<and> import_netnames ordered_host netnames_example net_state = Inr net_state'
   \<and> signal_bits net_state 1 = Some (WireBit (escape_id ordered_host ''a'') 0)
   \<and> signal_bits net_state' 1 = Some (WireBit (escape_id ordered_host ''a'') 0)"
proof -
  have h1: "signal_bits table_state 1 = Some (WireBit ''a'' 0)"
    and h2: "signal_bits table_state 2 = None"
    by (simp_all add: table_state_def)
  have h3: "WireBit ''a'' 0 \<noteq> WireBit ''n'' 0" by simp
  have run: "import_netnames ordered_host netnames_example net_state = Inr net_state'"
    by (simp add: import_netnames_def netnames_example_def import_netname_def wire_or_add_def
        addWire_def netname_bit_def connect_st_def connect_def Let_def net_state_def
        net_state'_def new_Module_def ordered_host_def example_host_def numeral_2_eq_2)
  have h4: "signal_bits net_state 1 = Some (WireBit (escape_id ordered_host ''a'') 0)"
    by (simp add: net_state_def)
  from netname_bit_never_replaces [of net_state 1 "WireBit ''a'' 0" "''n''" 0
      ordered_host netnames_example net_state' 1 "WireBit (escape_id ordered_host ''a'') 0"]
    run h4
  have keep: "signal_bits net_state' 1 = Some (WireBit (escape_id ordered_host ''a'') 0)" by blast
  show ?thesis
    using h1 h2 h3 run h4 keep
      netname_bit_never_replaces [of table_state 1 "WireBit ''a'' 0" "''n''" 0
        ordered_host netnames_example net_state' 1 "WireBit ''a'' 0"]
      netname_bit_never_replaces [of table_state 1 "WireBit ''a'' 0" "''a''" 0
        ordered_host netnames_example net_state' 1 "WireBit ''a'' 0"]
      netname_bit_never_replaces [of table_state 2 "WireBit ''a'' 0" "''n''" 1
        ordered_host netnames_example net_state' 1 "WireBit ''a'' 0"]
    by simp
qed

section \<open>Port directions\<close>















section \<open>Malformed ports\<close>

lemma scenario_D_parse: "JsonNode_parse scenario_D = Inr (scenario_D_tree, [])"
  by (simp add: scenario_D_def scenario_D_tree_def is_space_def is_digit_def digit_val_def)

lemma import_port_malformed:
  assumes "\<not> (\<exists>s. map_of d ''direction'' = Some (JString s))
           \<or> \<not> (\<exists>a. map_of d ''bits'' = Some (JArray a))"
  shows "\<exists>e. import_port h (pname, JDict d) st = Inl e \<and> MalformedPortError e"
proof (cases "map_of d ''direction''")
  case None
  then show ?thesis by (simp add: import_port_def MalformedPortError_def)
next
  case (Some dn)
  note dn = this
  show ?thesis
  proof (cases "map_of d ''bits''")
    case None
    with dn show ?thesis by (simp add: import_port_def MalformedPortError_def)
  next
    case (Some bn)
    with dn assms have "node_type dn \<noteq> CHR ''S'' \<or> node_type bn \<noteq> CHR ''A''"
      by (cases dn; cases bn) auto
    with dn Some show ?thesis
      by (auto simp: import_port_def MalformedPortError_def Let_def)
  qed
qed

lemma for_each_fails:
  assumes "x \<in> set xs" and "\<And>s. \<exists>e. body x s = Inl e"
  shows "\<exists>e. for_each body xs s = Inl e"
  using assms(1)
proof (induction xs arbitrary: s)
  case Nil
  then show ?case by simp
next
  case (Cons y ys)
  show ?case
  proof (cases "body y s")
    case (Inl e)
    then show ?thesis by simp
  next
    case (Inr s1)
    with assms(2)[of s] have "y \<noteq> x" by auto
    with Cons.prems have "x \<in> set ys" by simp
    from Cons.IH[OF this, of s1] Inr show ?thesis by simp
  qed
qed

lemma scenario_D_execute:
  assumes "design ys (escape_id h ''top'') = None" and "\<forall>x. dict_order h [x] = [x]"
  shows "execute h scenario_D ys = Inl PortNoDirection"
  using assms
  by (simp add: execute_def scenario_D_parse scenario_D_tree_def json_import_def Let_def
      import_ports_def import_port_def)

lemma for_each_append:
  "for_each body (xs @ ys) s =
     (case for_each body xs s of Inl e \<Rightarrow> Inl e | Inr s' \<Rightarrow> for_each body ys s')"
  by (induction xs arbitrary: s) (auto split: sum.splits)

text \<open>
  C7: a port object without a \<^verbatim>\<open>direction\<close> that is a string, or without \<^verbatim>\<open>bits\<close> that are
  an array, makes the import of the port fail with a malformed-port error. The loop over
  the ports then fails, and with a malformed-port error when the ports before this one were
  imported. The document \<^verbatim>\<open>{"modules":{"top":{"ports":{"o":{"bits":[1]}}}}}\<close>, read into a
  design that has no module of that name, fails with the malformed-port error of a missing
  direction.
\<close>

theorem malformed_port:
  "(\<not> (\<exists>s. map_of d ''direction'' = Some (JString s))
      \<or> \<not> (\<exists>a. map_of d ''bits'' = Some (JArray a)) \<longrightarrow>
      (\<exists>e. import_port h (pname, JDict d) st = Inl e \<and> MalformedPortError e)
      \<and> ((pname, JDict d) \<in> set ps \<longrightarrow> (\<exists>e. for_each (import_port h) ps st = Inl e))
      \<and> (for_each (import_port h) pre st = Inr st1 \<longrightarrow>
           (\<exists>e. for_each (import_port h) (pre @ (pname, JDict d) # post) st = Inl e
                \<and> MalformedPortError e)))
   \<and> (design ys (escape_id h ''top'') = None \<and> (\<forall>x. dict_order h [x] = [x]) \<longrightarrow>
      execute h scenario_D ys = Inl PortNoDirection \<and> MalformedPortError PortNoDirection)"
proof (intro conjI impI)
  assume a: "\<not> (\<exists>s. map_of d ''direction'' = Some (JString s))
      \<or> \<not> (\<exists>a. map_of d ''bits'' = Some (JArray a))"
  from import_port_malformed[OF a]
  show "\<exists>e. import_port h (pname, JDict d) st = Inl e \<and> MalformedPortError e" .
  {
    assume m: "(pname, JDict d) \<in> set ps"
    have "\<And>s. \<exists>e. import_port h (pname, JDict d) s = Inl e"
      using import_port_malformed[OF a] by blast
    from for_each_fails[where body = "import_port h", OF m this]
    show "\<exists>e. for_each (import_port h) ps st = Inl e" .
  }
  {
    assume pre: "for_each (import_port h) pre st = Inr st1"
    from import_port_malformed[OF a, of h pname st1] obtain e where
      "import_port h (pname, JDict d) st1 = Inl e" "MalformedPortError e" by blast
    with pre show "\<exists>e. for_each (import_port h) (pre @ (pname, JDict d) # post) st = Inl e
                \<and> MalformedPortError e"
      by (simp add: for_each_append)
  }
next
  assume "design ys (escape_id h ''top'') = None \<and> (\<forall>x. dict_order h [x] = [x])"
  then show "execute h scenario_D ys = Inl PortNoDirection"
    using scenario_D_execute by blast
next
  show "MalformedPortError PortNoDirection" by (simp add: MalformedPortError_def)
qed

theorem malformed_port_witness:
  "\<not> (\<exists>s. map_of [(''bits'', JArray [JNumber 1])] ''direction'' = Some (JString s))
   \<and> (\<exists>e. import_port example_host (''o'', JDict [(''bits'', JArray [JNumber 1])]) port_state = Inl e
          \<and> MalformedPortError e)
   \<and> (''o'', JDict [(''bits'', JArray [JNumber 1])]) \<in> set [port_a, (''o'', JDict [(''bits'', JArray [JNumber 1])])]
   \<and> (\<exists>e. for_each (import_port example_host) [port_a, (''o'', JDict [(''bits'', JArray [JNumber 1])])]
             port_state = Inl e)
   \<and> for_each (import_port example_host) [port_a] port_state = Inr port_a_state
   \<and> (\<exists>e. for_each (import_port example_host)
             ([port_a] @ (''o'', JDict [(''bits'', JArray [JNumber 1])]) # []) port_state = Inl e
          \<and> MalformedPortError e)
   \<and> design empty_design (escape_id example_host ''top'') = None
   \<and> (\<forall>x. dict_order example_host [x] = [x])
   \<and> execute example_host scenario_D empty_design = Inl PortNoDirection
   \<and> MalformedPortError PortNoDirection"
proof -
  have h1: "\<not> (\<exists>s. map_of [(''bits'', JArray [JNumber 1])] ''direction'' = Some (JString s))"
    by simp
  have h2: "(''o'', JDict [(''bits'', JArray [JNumber 1])])
              \<in> set [port_a, (''o'', JDict [(''bits'', JArray [JNumber 1])])]" by simp
  have h3: "design empty_design (escape_id example_host ''top'') = None"
    by (simp add: empty_design_def)
  have h4: "\<forall>x. dict_order example_host [x] = [x]" by (simp add: example_host_def)
  have h5: "for_each (import_port example_host) [port_a] port_state = Inr port_a_state"
    by (simp add: import_port_def port_a_def port_state_def port_a_state_def wire_or_add_def
        addWire_def new_Wire_def new_Module_def set_direction_def port_bit_def Let_def
        example_host_def)
  from malformed_port [of "[(''bits'', JArray [JNumber 1])]" example_host "''o''" port_state
      "[port_a, (''o'', JDict [(''bits'', JArray [JNumber 1])])]" "[port_a]" port_a_state "[]"
      empty_design] h1 h2 h3 h4 h5
  show ?thesis by blast
qed


section \<open>The frontend (JsonFrontend::execute)\<close>

lemma scenario_C_parse: "JsonNode_parse scenario_C = Inr (scenario_C_tree, [])"
  by (simp add: scenario_C_def scenario_C_tree_def is_space_def is_digit_def digit_val_def)

text \<open>
  C6: read into a design that has no module of that name, the document
  \<^verbatim>\<open>{"modules":{"top":{"ports":{"o":{"direction":"output","bits":["1","0"]}}}}}\<close>
  adds the module top, with the 2-bit wire o marked as an output port and not as an input
  port, bit 0 of o connected as driven by the constant 1 and bit 1 as driven by the
  constant 0; the other modules of the design are left as they are.
\<close>

theorem scenario_C_import:
  "design ys (escape_id h ''top'') = None \<and> (\<forall>x. dict_order h [x] = [x]) \<longrightarrow>
     (\<exists>ys' m. execute h scenario_C ys = Inr ys'
        \<and> design ys' (escape_id h ''top'') = Some m
        \<and> mod_name m = escape_id h ''top''
        \<and> wires m (escape_id h ''o'')
            = Some \<lparr>wire_width = 2, port_input = False, port_output = True\<rparr>
        \<and> connections m = [(WireBit (escape_id h ''o'') 0, Const S1),
                            (WireBit (escape_id h ''o'') 1, Const S0)]
        \<and> (\<forall>n. n \<noteq> escape_id h ''top'' \<longrightarrow> design ys' n = design ys n))"
  by (simp add: execute_def scenario_C_parse scenario_C_tree_def json_import_def Let_def
      import_ports_def import_port_def wire_or_add_def addWire_def new_Wire_def new_Module_def
      set_direction_def port_bit_def connect_st_def connect_def fixup_ports_def
      import_netnames_def import_cells_def numeral_2_eq_2)

theorem scenario_C_import_witness:
  "design empty_design (escape_id example_host ''top'') = None
   \<and> (\<forall>x. dict_order example_host [x] = [x])
   \<and> (\<exists>ys' m. execute example_host scenario_C empty_design = Inr ys'
        \<and> design ys' (escape_id example_host ''top'') = Some m
        \<and> mod_name m = escape_id example_host ''top''
        \<and> wires m (escape_id example_host ''o'')
            = Some \<lparr>wire_width = 2, port_input = False, port_output = True\<rparr>
        \<and> connections m = [(WireBit (escape_id example_host ''o'') 0, Const S1),
                            (WireBit (escape_id example_host ''o'') 1, Const S0)])"
proof -
  have h1: "design empty_design (escape_id example_host ''top'') = None"
    by (simp add: empty_design_def)
  have h2: "\<forall>x. dict_order example_host [x] = [x]" by (simp add: example_host_def)
  from scenario_C_import [of empty_design example_host] h1 h2 show ?thesis by blast
qed

text \<open>
  C10: when the root of the document is a dictionary without the key \<^verbatim>\<open>modules\<close>, the
  frontend returns without an error and with the design and the counter it was given.
\<close>

theorem no_modules_key:
  "JsonNode_parse f = Inr (JDict d, f') \<and> map_of d ''modules'' = None \<longrightarrow>
     execute h f ys = Inr ys"
  by (simp add: execute_def)

theorem no_modules_key_witness:
  "JsonNode_parse ''{\"cells\":{}}'' = Inr (JDict [(''cells'', JDict [])], [])
   \<and> map_of [(''cells'', JDict [])] ''modules'' = None
   \<and> execute example_host ''{\"cells\":{}}'' empty_design = Inr empty_design"
proof -
  have h1: "JsonNode_parse ''{\"cells\":{}}'' = Inr (JDict [(''cells'', JDict [])], [])"
    by (simp add: is_space_def is_digit_def)
  have h2: "map_of [(''cells'', JDict [])] ''modules'' = None" by simp
  from no_modules_key [of "''{\"cells\":{}}''" "[(''cells'', JDict [])]" "[]" example_host empty_design]
    h1 h2
  show ?thesis by blast
qed

section \<open>Locality of the parser\<close>

text \<open>
  A successful parse consumes a non-empty prefix of the stream and returns the rest; it gives
  the same value when the rest is replaced, provided a number still ends where it did.
\<close>

lemma number_end_append:
  "number_end v (c @ r) \<Longrightarrow> c \<noteq> [] \<Longrightarrow> number_end v (c @ t)"
  by (cases c) (auto simp: number_end_def)

lemma string_loop_frame:
  "string_loop acc f = Inr (s, r) \<Longrightarrow>
     \<exists>c. f = c @ r \<and> c \<noteq> [] \<and> (\<forall>t. string_loop acc (c @ t) = Inr (s, t))"
proof (induction acc f rule: string_loop.induct)
  case (1 acc)
  then show ?case by simp
next
  case (2 acc ch f)
  show ?case
  proof (cases "ch = CHR 0x22")
    case True
    with "2.prems" have "ch # f = [ch] @ r \<and> (\<forall>t. string_loop acc ([ch] @ t) = Inr (s, t))"
      by simp
    then show ?thesis by blast
  next
    case nq: False
    show ?thesis
    proof (cases "ch = CHR 0x5C")
      case True
      with nq "2.prems" obtain ch' f' where f: "f = ch' # f'"
        and rec: "string_loop (acc @ [ch]) f' = Inr (s, r)"
        by (cases f) auto
      from "2.IH"(1)[OF nq True f rec] obtain c where
        c: "f' = c @ r" "\<forall>t. string_loop (acc @ [ch]) (c @ t) = Inr (s, t)" by blast
      with nq True f have "ch # f = (ch # ch' # c) @ r
          \<and> (\<forall>t. string_loop acc ((ch # ch' # c) @ t) = Inr (s, t))" by simp
      then show ?thesis by blast
    next
      case False
      with nq "2.prems" have rec: "string_loop (acc @ [ch]) f = Inr (s, r)" by simp
      from "2.IH"(2)[OF nq False rec] obtain c where
        c: "f = c @ r" "\<forall>t. string_loop (acc @ [ch]) (c @ t) = Inr (s, t)" by blast
      with nq False have "ch # f = (ch # c) @ r
          \<and> (\<forall>t. string_loop acc ((ch # c) @ t) = Inr (s, t))" by simp
      then show ?thesis by blast
    qed
  qed
qed

lemma number_loop_stop:
  "t = [] \<or> \<not> is_digit (hd t) \<Longrightarrow> number_loop n t = (n, t)"
  by (cases t) auto

lemma number_loop_frame:
  "number_loop n f = (m, r) \<Longrightarrow>
     \<exists>c. f = c @ r \<and> (r = [] \<or> \<not> is_digit (hd r))
        \<and> (\<forall>t. t = [] \<or> \<not> is_digit (hd t) \<longrightarrow> number_loop n (c @ t) = (m, t))"
proof (induction n f rule: number_loop.induct)
  case (1 n)
  then have "[] = [] @ r \<and> (r = [] \<or> \<not> is_digit (hd r))
      \<and> (\<forall>t. t = [] \<or> \<not> is_digit (hd t) \<longrightarrow> number_loop n ([] @ t) = (m, t))"
    by (auto simp: number_loop_stop)
  then show ?case by blast
next
  case (2 n ch f)
  show ?case
  proof (cases "is_digit ch")
    case False
    with "2.prems" have "ch # f = [] @ r \<and> (r = [] \<or> \<not> is_digit (hd r))
      \<and> (\<forall>t. t = [] \<or> \<not> is_digit (hd t) \<longrightarrow> number_loop n ([] @ t) = (m, t))"
      by (auto simp: number_loop_stop)
    then show ?thesis by blast
  next
    case True
    with "2.prems" have rec: "number_loop (n * 10 + digit_val ch) f = (m, r)" by simp
    from "2.IH"[OF _ rec] True obtain c where
      c: "f = c @ r" "r = [] \<or> \<not> is_digit (hd r)"
        "\<forall>t. t = [] \<or> \<not> is_digit (hd t) \<longrightarrow> number_loop (n * 10 + digit_val ch) (c @ t) = (m, t)"
      by auto
    with True have "ch # f = (ch # c) @ r \<and> (r = [] \<or> \<not> is_digit (hd r))
      \<and> (\<forall>t. t = [] \<or> \<not> is_digit (hd t) \<longrightarrow> number_loop n ((ch # c) @ t) = (m, t))"
      by simp
    then show ?thesis by blast
  qed
qed

lemma colon_loop_frame:
  "colon_loop f = Inr r \<Longrightarrow>
     \<exists>c. f = c @ r \<and> r \<noteq> []
        \<and> (\<forall>t. t \<noteq> [] \<and> hd t = hd r \<longrightarrow> colon_loop (c @ t) = Inr t)"
proof (induction f rule: colon_loop.induct)
  case 1
  then show ?case by simp
next
  case (2 ch f)
  show ?case
  proof (cases "is_space ch \<or> ch = CHR '':''")
    case True
    with "2.prems" have rec: "colon_loop f = Inr r" by simp
    from "2.IH"[OF True rec] obtain c where
      c: "f = c @ r" "r \<noteq> []" "\<forall>t. t \<noteq> [] \<and> hd t = hd r \<longrightarrow> colon_loop (c @ t) = Inr t"
      by blast
    with True have "ch # f = (ch # c) @ r \<and> r \<noteq> []
        \<and> (\<forall>t. t \<noteq> [] \<and> hd t = hd r \<longrightarrow> colon_loop ((ch # c) @ t) = Inr t)"
      by simp
    then show ?thesis by blast
  next
    case False
    with "2.prems" have r: "r = ch # f" by simp
    with False have "ch # f = [] @ r \<and> r \<noteq> []
        \<and> (\<forall>t. t \<noteq> [] \<and> hd t = hd r \<longrightarrow> colon_loop ([] @ t) = Inr t)"
      by (auto simp: neq_Nil_conv)
    then show ?thesis by blast
  qed
qed

lemma parse_frame:
  "JsonNode_parse f = Inr (v, r) \<Longrightarrow>
     \<exists>c. f = c @ r \<and> c \<noteq> [] \<and> number_end v r
        \<and> (\<forall>t. number_end v t \<longrightarrow> JsonNode_parse (c @ t) = Inr (v, t))"
  "array_loop a f = Inr (x, r) \<Longrightarrow>
     \<exists>c. f = c @ r \<and> c \<noteq> [] \<and> (\<forall>t. array_loop a (c @ t) = Inr (x, t))"
  "dict_loop d f = Inr (y, r) \<Longrightarrow>
     \<exists>c. f = c @ r \<and> c \<noteq> [] \<and> (\<forall>t. dict_loop d (c @ t) = Inr (y, t))"
proof (induction f and a f and d f arbitrary: v r and x r and y r
    rule: JsonNode_parse_array_loop_dict_loop.induct)
  case 1
  then show ?case by simp
next
  case (2 ch f)
  note res = "2.prems"
  show ?case
  proof (cases "is_space ch")
    case True
    with res have "JsonNode_parse f = Inr (v, r)" by simp
    from "2.IH"(1)[OF True this] obtain c where
      c: "f = c @ r" "number_end v r"
        "\<forall>t. number_end v t \<longrightarrow> JsonNode_parse (c @ t) = Inr (v, t)" by blast
    with True have "ch # f = (ch # c) @ r \<and> ch # c \<noteq> [] \<and> number_end v r
        \<and> (\<forall>t. number_end v t \<longrightarrow> JsonNode_parse ((ch # c) @ t) = Inr (v, t))" by simp
    then show ?thesis by blast
  next
    case ns: False
    show ?thesis
    proof (cases "ch = CHR 0x22")
      case True
      with ns res obtain s where s: "string_loop [] f = Inr (s, r)" and v: "v = JString s"
        by (auto split: sum.splits)
      from string_loop_frame[OF s] obtain c where
        c: "f = c @ r" "\<forall>t. string_loop [] (c @ t) = Inr (s, t)" by blast
      with ns True v have "ch # f = (ch # c) @ r \<and> ch # c \<noteq> [] \<and> number_end v r
        \<and> (\<forall>t. number_end v t \<longrightarrow> JsonNode_parse ((ch # c) @ t) = Inr (v, t))"
        by (simp add: number_end_def)
      then show ?thesis by blast
    next
      case nq: False
      show ?thesis
      proof (cases "is_digit ch")
        case True
        with ns nq res obtain n where n: "number_loop (digit_val ch) f = (n, r)"
          and v: "v = JNumber n"
          by (auto split: prod.splits)
        from number_loop_frame[OF n] obtain c where
          c: "f = c @ r" "r = [] \<or> \<not> is_digit (hd r)"
            "\<forall>t. t = [] \<or> \<not> is_digit (hd t) \<longrightarrow> number_loop (digit_val ch) (c @ t) = (n, t)"
          by blast
        with ns nq True v have "ch # f = (ch # c) @ r \<and> ch # c \<noteq> [] \<and> number_end v r
          \<and> (\<forall>t. number_end v t \<longrightarrow> JsonNode_parse ((ch # c) @ t) = Inr (v, t))"
          by (simp add: number_end_def)
        then show ?thesis by blast
      next
        case nd: False
        show ?thesis
        proof (cases "ch = CHR ''[''")
          case True
          with ns nq nd res obtain x where x: "array_loop [] f = Inr (x, r)" and v: "v = JArray x"
            by (auto split: sum.splits)
          from "2.IH"(2)[OF ns nq nd True x] obtain c where
            c: "f = c @ r" "\<forall>t. array_loop [] (c @ t) = Inr (x, t)" by blast
          with ns nq nd True v have "ch # f = (ch # c) @ r \<and> ch # c \<noteq> [] \<and> number_end v r
            \<and> (\<forall>t. number_end v t \<longrightarrow> JsonNode_parse ((ch # c) @ t) = Inr (v, t))"
            by (simp add: number_end_def)
          then show ?thesis by blast
        next
          case nb: False
          show ?thesis
          proof (cases "ch = CHR ''{''")
            case True
            with ns nq nd nb res obtain y where y: "dict_loop [] f = Inr (y, r)"
              and v: "v = JDict y"
              by (auto split: sum.splits)
            from "2.IH"(3)[OF ns nq nd nb True y] obtain c where
              c: "f = c @ r" "\<forall>t. dict_loop [] (c @ t) = Inr (y, t)" by blast
            with ns nq nd nb True v have "ch # f = (ch # c) @ r \<and> ch # c \<noteq> [] \<and> number_end v r
              \<and> (\<forall>t. number_end v t \<longrightarrow> JsonNode_parse ((ch # c) @ t) = Inr (v, t))"
              by (simp add: number_end_def)
            then show ?thesis by blast
          next
            case False
            with ns nq nd nb res show ?thesis by simp
          qed
        qed
      qed
    qed
  qed
next
  case (3 a)
  then show ?case by simp
next
  case (4 a ch f)
  note res = "4.prems"
  show ?case
  proof (cases "is_space ch \<or> ch = CHR '',''")
    case True
    with res have "array_loop a f = Inr (x, r)" by simp
    from "4.IH"(1)[OF True this] obtain c where
      c: "f = c @ r" "\<forall>t. array_loop a (c @ t) = Inr (x, t)" by blast
    with True have "ch # f = (ch # c) @ r \<and> ch # c \<noteq> []
        \<and> (\<forall>t. array_loop a ((ch # c) @ t) = Inr (x, t))" by simp
    then show ?thesis by blast
  next
    case ns: False
    show ?thesis
    proof (cases "ch = CHR '']''")
      case True
      with ns res have "ch # f = [ch] @ r \<and> [ch] \<noteq> []
        \<and> (\<forall>t. array_loop a ([ch] @ t) = Inr (x, t))" by simp
      then show ?thesis by blast
    next
      case nb: False
      with ns res obtain v f' where
        p: "JsonNode_parse (ch # f) = Inr (v, f')" and l: "array_loop (a @ [v]) f' = Inr (x, r)"
        by (auto split: sum.splits)
      from "4.IH"(2)[OF ns nb p] obtain c1 where
        c1: "ch # f = c1 @ f'" "c1 \<noteq> []" "number_end v f'"
          "\<forall>t. number_end v t \<longrightarrow> JsonNode_parse (c1 @ t) = Inr (v, t)" by blast
      from "4.IH"(3)[OF ns nb p refl l] obtain c2 where
        c2: "f' = c2 @ r" "c2 \<noteq> []" "\<forall>t. array_loop (a @ [v]) (c2 @ t) = Inr (x, t)" by blast
      from c1(1,2) obtain c1' where c1': "c1 = ch # c1'" by (cases c1) auto
      have "array_loop a ((c1 @ c2) @ t) = Inr (x, t)" for t
      proof -
        from c1(3) c2(1,2) have "number_end v (c2 @ t)" using number_end_append by blast
        with c1(4) have "JsonNode_parse (c1 @ c2 @ t) = Inr (v, c2 @ t)" by blast
        with c1' ns nb c2(3) show ?thesis by simp
      qed
      with c1 c2 have "ch # f = (c1 @ c2) @ r \<and> c1 @ c2 \<noteq> []
        \<and> (\<forall>t. array_loop a ((c1 @ c2) @ t) = Inr (x, t))" by simp
      then show ?thesis by blast
    qed
  qed
next
  case (5 d)
  then show ?case by simp
next
  case (6 d ch f)
  note res = "6.prems"
  show ?case
  proof (cases "is_space ch \<or> ch = CHR '',''")
    case True
    with res have "dict_loop d f = Inr (y, r)" by simp
    from "6.IH"(1)[OF True this] obtain c where
      c: "f = c @ r" "\<forall>t. dict_loop d (c @ t) = Inr (y, t)" by blast
    with True have "ch # f = (ch # c) @ r \<and> ch # c \<noteq> []
        \<and> (\<forall>t. dict_loop d ((ch # c) @ t) = Inr (y, t))" by simp
    then show ?thesis by blast
  next
    case ns: False
    show ?thesis
    proof (cases "ch = CHR ''}''")
      case True
      with ns res have "ch # f = [ch] @ r \<and> [ch] \<noteq> []
        \<and> (\<forall>t. dict_loop d ([ch] @ t) = Inr (y, t))" by simp
      then show ?thesis by blast
    next
      case nb: False
      with ns res obtain key f1 f2 val f3 k where
        p1: "JsonNode_parse (ch # f) = Inr (key, f1)" and cl: "colon_loop f1 = Inr f2"
        and p2: "JsonNode_parse f2 = Inr (val, f3)" and k: "key = JString k"
        and l: "dict_loop (dict_set d k val) f3 = Inr (y, r)"
        by (auto split: sum.splits JsonNode.splits)
      from "6.IH"(2)[OF ns nb p1] obtain c1 where
        c1: "ch # f = c1 @ f1" "c1 \<noteq> []"
          "\<forall>t. number_end key t \<longrightarrow> JsonNode_parse (c1 @ t) = Inr (key, t)" by blast
      from colon_loop_frame[OF cl] obtain cc where
        cc: "f1 = cc @ f2" "f2 \<noteq> []"
          "\<forall>t. t \<noteq> [] \<and> hd t = hd f2 \<longrightarrow> colon_loop (cc @ t) = Inr t" by blast
      from "6.IH"(3)[OF ns nb p1 refl cl p2] obtain c2 where
        c2: "f2 = c2 @ f3" "c2 \<noteq> []" "number_end val f3"
          "\<forall>t. number_end val t \<longrightarrow> JsonNode_parse (c2 @ t) = Inr (val, t)" by blast
      from "6.IH"(4)[OF ns nb p1 refl cl p2 refl k l] obtain c3 where
        c3: "f3 = c3 @ r" "c3 \<noteq> []"
          "\<forall>t. dict_loop (dict_set d k val) (c3 @ t) = Inr (y, t)" by blast
      from c1(1,2) obtain c1' where c1': "c1 = ch # c1'" by (cases c1) auto
      have "dict_loop d ((c1 @ cc @ c2 @ c3) @ t) = Inr (y, t)" for t
      proof -
        from k have "number_end key (cc @ c2 @ c3 @ t)" by (simp add: number_end_def)
        with c1(3) have a: "JsonNode_parse (c1 @ cc @ c2 @ c3 @ t) = Inr (key, cc @ c2 @ c3 @ t)"
          by blast
        from c2(1,2) have "c2 @ c3 @ t \<noteq> [] \<and> hd (c2 @ c3 @ t) = hd f2" by (cases c2) auto
        with cc(3) have b: "colon_loop (cc @ c2 @ c3 @ t) = Inr (c2 @ c3 @ t)" by blast
        from c2(3) c3(1,2) have "number_end val (c3 @ t)" using number_end_append by blast
        with c2(4) have c: "JsonNode_parse (c2 @ c3 @ t) = Inr (val, c3 @ t)" by blast
        from c1' ns nb a b c k c3(3) show ?thesis by simp
      qed
      with c1 cc c2 c3 have "ch # f = (c1 @ cc @ c2 @ c3) @ r \<and> c1 @ cc @ c2 @ c3 \<noteq> []
        \<and> (\<forall>t. dict_loop d ((c1 @ cc @ c2 @ c3) @ t) = Inr (y, t))" by simp
      then show ?thesis by blast
    qed
  qed
qed


lemma parse_frame_whole:
  assumes "JsonNode_parse t = Inr (v, [])" and "number_end v r"
  shows "JsonNode_parse (t @ r) = Inr (v, r)"
proof -
  from parse_frame(1)[OF assms(1)] obtain c where
    "t = c @ []" "\<forall>t'. number_end v t' \<longrightarrow> JsonNode_parse (c @ t') = Inr (v, t')" by blast
  with assms(2) show ?thesis by simp
qed

lemma array_loop_value:
  "JsonNode_parse f = Inr (v, r) \<Longrightarrow> array_loop a f = array_loop (a @ [v]) r"
proof (induction f)
  case Nil
  then show ?case by simp
next
  case (Cons ch f)
  show ?case
  proof (cases "is_space ch")
    case True
    with Cons show ?thesis by simp
  next
    case False
    with Cons.prems have "ch \<noteq> CHR '',''" "ch \<noteq> CHR '']''"
      by (auto simp: is_digit_def is_space_def)
    with False Cons.prems show ?thesis by simp
  qed
qed



section \<open>Separators\<close>

lemma separator_not_digit: "is_space ch \<or> ch = CHR '','' \<Longrightarrow> \<not> is_digit ch"
  unfolding is_space_def is_digit_def by (elim disjE) simp_all

lemma array_loop_skip:
  "\<forall>ch \<in> set s. is_space ch \<or> ch = CHR '','' \<Longrightarrow> array_loop a (s @ f) = array_loop a f"
  by (induction s) auto

lemma two_element_array:
  assumes t1: "JsonNode_parse t1 = Inr (v1, [])" and t2: "JsonNode_parse t2 = Inr (v2, [])"
    and sep: "sep \<noteq> []" "\<forall>ch \<in> set sep. is_space ch \<or> ch = CHR '',''"
  shows "JsonNode_parse (''['' @ t1 @ sep @ t2 @ '']'') = Inr (JArray [v1, v2], [])"
proof -
  from sep(1) obtain ch s where s: "sep = ch # s" by (cases sep) auto
  with sep(2) have "is_space ch \<or> ch = CHR '',''" by simp
  from separator_not_digit[OF this] s have "\<not> is_digit (hd (sep @ t2 @ '']''))" by simp
  then have "number_end v1 (sep @ t2 @ '']'')" by (simp add: number_end_def)
  from parse_frame_whole[OF t1 this]
  have "JsonNode_parse (t1 @ sep @ t2 @ '']'') = Inr (v1, sep @ t2 @ '']'')" .
  from array_loop_value[OF this]
  have a: "array_loop [] (t1 @ sep @ t2 @ '']'') = array_loop ([] @ [v1]) (sep @ t2 @ '']'')" .
  have "number_end v2 '']''" by (simp add: number_end_def is_digit_def)
  from parse_frame_whole[OF t2 this]
  have "JsonNode_parse (t2 @ '']'') = Inr (v2, '']'')" .
  from array_loop_value[OF this]
  have b: "array_loop [v1] (t2 @ '']'') = array_loop ([v1] @ [v2]) '']''" .
  have c: "array_loop ([v1] @ [v2]) '']'' = Inr ([v1, v2], [])"
    by (simp add: is_space_def)
  have "array_loop [] (t1 @ sep @ t2 @ '']'') = array_loop [v1] (sep @ t2 @ '']'')"
    using a by simp
  also have "\<dots> = array_loop [v1] (t2 @ '']'')"
    by (rule array_loop_skip[OF sep(2)])
  also note b
  also note c
  finally have l: "array_loop [] (t1 @ sep @ t2 @ '']'') = Inr ([v1, v2], [])" .
  have "JsonNode_parse (CHR ''['' # (t1 @ sep @ t2 @ '']''))
          = (case array_loop [] (t1 @ sep @ t2 @ '']'') of
               Inl e \<Rightarrow> Inl e | Inr (a, f') \<Rightarrow> Inr (JArray a, f'))"
    by (simp add: is_space_def is_digit_def)
  with l show ?thesis by simp
qed

lemma dict_loop_value:
  "JsonNode_parse f = Inr (key, r) \<Longrightarrow>
     dict_loop d f =
       (case colon_loop r of
          Inl e \<Rightarrow> Inl e
        | Inr f2 \<Rightarrow>
           (case JsonNode_parse f2 of
              Inl e \<Rightarrow> Inl e
            | Inr (val, f3) \<Rightarrow>
               (case key of
                  JString k \<Rightarrow> dict_loop (dict_set d k val) f3
                | _ \<Rightarrow> Inl NonStringKey)))"
proof (induction f)
  case Nil
  then show ?case by simp
next
  case (Cons ch f)
  show ?case
  proof (cases "is_space ch")
    case True
    with Cons show ?thesis by simp
  next
    case False
    with Cons.prems have "ch \<noteq> CHR '',''" "ch \<noteq> CHR ''}''"
      by (auto simp: is_digit_def is_space_def)
    with False Cons.prems show ?thesis by (simp del: JsonNode_parse.simps)
  qed
qed

lemma comma_after_key:
  assumes "JsonNode_parse kt = Inr (key, [])"
  shows "dict_loop d (kt @ CHR '','' # f) = Inl (UnexpectedCharacter (CHR '',''))"
proof -
  have "number_end key (CHR '','' # f)" by (simp add: number_end_def is_digit_def)
  from parse_frame_whole[OF assms this]
  have "JsonNode_parse (kt @ CHR '','' # f) = Inr (key, CHR '','' # f)" .
  from dict_loop_value[OF this, of d] show ?thesis
    by (simp add: is_space_def is_digit_def)
qed

text \<open>
  C8, as stated, fails inside objects: between a key and its colon, and between the colon
  and the value, a blank is skipped and a comma is not, so that \<^verbatim>\<open>{"a" :1}\<close> and
  \<^verbatim>\<open>{"a": 1}\<close> parse and \<^verbatim>\<open>{"a",:1}\<close> and \<^verbatim>\<open>{"a":,1}\<close> fail with an unexpected character.
\<close>

theorem comma_between_key_and_value:
  "JsonNode_parse ''{\"a\" :1}'' = Inr (JDict [(''a'', JNumber 1)], [])
   \<and> JsonNode_parse ''{\"a\",:1}'' = Inl (UnexpectedCharacter (CHR '',''))
   \<and> JsonNode_parse ''{\"a\": 1}'' = Inr (JDict [(''a'', JNumber 1)], [])
   \<and> JsonNode_parse ''{\"a\":,1}'' = Inl (UnexpectedCharacter (CHR '',''))"
  by (simp add: is_space_def is_digit_def digit_val_def)


text \<open>
  C8, amended: the array loop, and the dictionary loop where it expects a key or the closing
  brace, skip a comma as they skip a blank, with no check of where the commas stand. Between
  a key and its value only blanks and colons are skipped: the loop of lines 141-153 stops at
  a comma, and a comma right after a key is an unexpected character. For any two texts that
  each parse, to their end, as one value, the texts of the two values between brackets and
  separated by a blank, by two commas or by one comma all parse to the array of the two
  values.
\<close>

theorem commas_as_whitespace:
  "array_loop a (CHR '','' # f) = array_loop a f
   \<and> array_loop a (CHR '' '' # f) = array_loop a f
   \<and> dict_loop d (CHR '','' # f) = dict_loop d f
   \<and> dict_loop d (CHR '' '' # f) = dict_loop d f
   \<and> (JsonNode_parse t1 = Inr (v1, []) \<and> JsonNode_parse t2 = Inr (v2, []) \<longrightarrow>
        JsonNode_parse (''['' @ t1 @ '' '' @ t2 @ '']'') = Inr (JArray [v1, v2], [])
        \<and> JsonNode_parse (''['' @ t1 @ '',,'' @ t2 @ '']'') = Inr (JArray [v1, v2], [])
        \<and> JsonNode_parse (''['' @ t1 @ '','' @ t2 @ '']'') = Inr (JArray [v1, v2], []))
   \<and> colon_loop (CHR '','' # f) = Inr (CHR '','' # f)
   \<and> (JsonNode_parse kt = Inr (key, []) \<longrightarrow>
        dict_loop d (kt @ CHR '','' # f) = Inl (UnexpectedCharacter (CHR '','')))"
proof (intro conjI impI)
  show "array_loop a (CHR '','' # f) = array_loop a f"
    "array_loop a (CHR '' '' # f) = array_loop a f"
    "dict_loop d (CHR '','' # f) = dict_loop d f"
    "dict_loop d (CHR '' '' # f) = dict_loop d f"
    "colon_loop (CHR '','' # f) = Inr (CHR '','' # f)"
    by (simp_all add: is_space_def)
next
  assume a: "JsonNode_parse t1 = Inr (v1, []) \<and> JsonNode_parse t2 = Inr (v2, [])"
  then have t1: "JsonNode_parse t1 = Inr (v1, [])" and t2: "JsonNode_parse t2 = Inr (v2, [])"
    by simp_all
  show "JsonNode_parse (''['' @ t1 @ '' '' @ t2 @ '']'') = Inr (JArray [v1, v2], [])"
    by (rule two_element_array[OF t1 t2]) (simp_all add: is_space_def)
  show "JsonNode_parse (''['' @ t1 @ '',,'' @ t2 @ '']'') = Inr (JArray [v1, v2], [])"
    by (rule two_element_array[OF t1 t2]) (simp_all add: is_space_def)
  show "JsonNode_parse (''['' @ t1 @ '','' @ t2 @ '']'') = Inr (JArray [v1, v2], [])"
    by (rule two_element_array[OF t1 t2]) (simp_all add: is_space_def)
next
  assume "JsonNode_parse kt = Inr (key, [])"
  from comma_after_key[OF this]
  show "dict_loop d (kt @ CHR '','' # f) = Inl (UnexpectedCharacter (CHR '',''))" .
qed

theorem commas_as_whitespace_witness:
  "JsonNode_parse ''12'' = Inr (JNumber 12, [])
   \<and> JsonNode_parse ''{\"k\":[3]}'' = Inr (JDict [(''k'', JArray [JNumber 3])], [])
   \<and> JsonNode_parse ''[12 {\"k\":[3]}]''
       = Inr (JArray [JNumber 12, JDict [(''k'', JArray [JNumber 3])]], [])
   \<and> JsonNode_parse ''[12,,{\"k\":[3]}]''
       = Inr (JArray [JNumber 12, JDict [(''k'', JArray [JNumber 3])]], [])
   \<and> JsonNode_parse ''[12,{\"k\":[3]}]''
       = Inr (JArray [JNumber 12, JDict [(''k'', JArray [JNumber 3])]], [])
   \<and> JsonNode_parse ''\"k\"'' = Inr (JString ''k'', [])
   \<and> dict_loop [] (''\"k\"'' @ '',:1}'') = Inl (UnexpectedCharacter (CHR '',''))"
proof -
  have h1: "JsonNode_parse ''12'' = Inr (JNumber 12, [])"
    by (simp add: is_space_def is_digit_def digit_val_def)
  have h2: "JsonNode_parse ''{\"k\":[3]}'' = Inr (JDict [(''k'', JArray [JNumber 3])], [])"
    by (simp add: is_space_def is_digit_def digit_val_def)
  have h3: "JsonNode_parse ''\"k\"'' = Inr (JString ''k'', [])"
    by (simp add: is_space_def)
  from commas_as_whitespace [of "[]" "'':1}''" "[]" "''12''" "JNumber 12" "''{\"k\":[3]}''"
      "JDict [(''k'', JArray [JNumber 3])]" "''\"k\"''" "JString ''k''"] h1 h2 h3
  show ?thesis by simp
qed

section \<open>Errors, termination and truncated input\<close>

lemma string_loop_error: "string_loop acc f = Inl e \<Longrightarrow> e = UnexpectedEOF_string"
proof (induction acc f rule: string_loop.induct)
  case (1 acc)
  then show ?case by simp
next
  case (2 acc ch f)
  show ?case
  proof (cases "ch = CHR 0x22")
    case True
    with "2.prems" show ?thesis by simp
  next
    case nq: False
    show ?thesis
    proof (cases "ch = CHR 0x5C")
      case True
      show ?thesis
      proof (cases f)
        case Nil
        with nq True "2.prems" show ?thesis by simp
      next
        case (Cons ch' f')
        with nq True "2.prems" have "string_loop (acc @ [ch]) f' = Inl e" by simp
        from "2.IH"(1)[OF nq True Cons this] show ?thesis .
      qed
    next
      case False
      with nq "2.prems" have "string_loop (acc @ [ch]) f = Inl e" by simp
      from "2.IH"(2)[OF nq False this] show ?thesis .
    qed
  qed
qed

lemma colon_loop_error: "colon_loop f = Inl e \<Longrightarrow> e = UnexpectedEOF_file"
  by (induction f rule: colon_loop.induct) (auto split: if_splits)

lemma parse_error_class:
  "JsonNode_parse f = Inl e \<Longrightarrow> ParseError e"
  "array_loop a f = Inl e \<Longrightarrow> ParseError e"
  "dict_loop d f = Inl e \<Longrightarrow> ParseError e"
proof (induction f and a f and d f arbitrary: e and e and e
    rule: JsonNode_parse_array_loop_dict_loop.induct)
  case 1
  then show ?case by (simp add: ParseError_def)
next
  case (2 ch f)
  note res = "2.prems"
  show ?case
  proof (cases "is_space ch")
    case True
    with res have "JsonNode_parse f = Inl e" by simp
    from "2.IH"(1)[OF True this] show ?thesis .
  next
    case ns: False
    show ?thesis
    proof (cases "ch = CHR 0x22")
      case True
      with ns res have "string_loop [] f = Inl e" by (simp split: sum.splits prod.splits)
      from string_loop_error[OF this] show ?thesis by (simp add: ParseError_def)
    next
      case nq: False
      show ?thesis
      proof (cases "is_digit ch")
        case True
        with ns nq res show ?thesis by (simp split: prod.splits)
      next
        case nd: False
        show ?thesis
        proof (cases "ch = CHR ''[''")
          case True
          with ns nq nd res have "array_loop [] f = Inl e"
            by (simp split: sum.splits prod.splits)
          from "2.IH"(2)[OF ns nq nd True this] show ?thesis .
        next
          case nb: False
          show ?thesis
          proof (cases "ch = CHR ''{''")
            case True
            with ns nq nd nb res have "dict_loop [] f = Inl e"
              by (simp split: sum.splits prod.splits)
            from "2.IH"(3)[OF ns nq nd nb True this] show ?thesis .
          next
            case False
            with ns nq nd nb res show ?thesis by (auto simp: ParseError_def)
          qed
        qed
      qed
    qed
  qed
next
  case (3 a)
  then show ?case by (simp add: ParseError_def)
next
  case (4 a ch f)
  note res = "4.prems"
  show ?case
  proof (cases "is_space ch \<or> ch = CHR '',''")
    case True
    with res have "array_loop a f = Inl e" by simp
    from "4.IH"(1)[OF True this] show ?thesis .
  next
    case ns: False
    show ?thesis
    proof (cases "ch = CHR '']''")
      case True
      with ns res show ?thesis by simp
    next
      case nb: False
      show ?thesis
      proof (cases "JsonNode_parse (ch # f)")
        case (Inl e1)
        with ns nb res have "e = e1" by (simp del: JsonNode_parse.simps)
        with "4.IH"(2)[OF ns nb Inl] show ?thesis by simp
      next
        case (Inr b)
        obtain v f' where b: "b = (v, f')" by (cases b)
        with ns nb res Inr have "array_loop (a @ [v]) f' = Inl e"
          by (simp del: JsonNode_parse.simps)
        from "4.IH"(3)[OF ns nb Inr b[symmetric] this] show ?thesis .
      qed
    qed
  qed
next
  case (5 d)
  then show ?case by (simp add: ParseError_def)
next
  case (6 d ch f)
  note res = "6.prems"
  show ?case
  proof (cases "is_space ch \<or> ch = CHR '',''")
    case True
    with res have "dict_loop d f = Inl e" by simp
    from "6.IH"(1)[OF True this] show ?thesis .
  next
    case ns: False
    show ?thesis
    proof (cases "ch = CHR ''}''")
      case True
      with ns res show ?thesis by simp
    next
      case nb: False
      show ?thesis
      proof (cases "JsonNode_parse (ch # f)")
        case (Inl e1)
        with ns nb res have "e = e1" by (simp del: JsonNode_parse.simps)
        with "6.IH"(2)[OF ns nb Inl] show ?thesis by simp
      next
        case p1: (Inr b)
        obtain key f1 where b: "b = (key, f1)" by (cases b)
        show ?thesis
        proof (cases "colon_loop f1")
          case (Inl e1)
          with ns nb res p1 b have "e = e1" by (simp del: JsonNode_parse.simps)
          with colon_loop_error[OF Inl] show ?thesis by (simp add: ParseError_def)
        next
          case cl: (Inr f2)
          show ?thesis
          proof (cases "JsonNode_parse f2")
            case (Inl e2)
            with ns nb res p1 b cl have "e = e2" by (simp del: JsonNode_parse.simps)
            with "6.IH"(3)[OF ns nb p1 b[symmetric] cl Inl] show ?thesis by simp
          next
            case p2: (Inr bb)
            obtain val f3 where bb: "bb = (val, f3)" by (cases bb)
            show ?thesis
            proof (cases "\<exists>k. key = JString k")
              case True
              then obtain k where k: "key = JString k" by blast
              with ns nb res p1 b cl p2 bb have "dict_loop (dict_set d k val) f3 = Inl e"
                by (simp del: JsonNode_parse.simps)
              from "6.IH"(4)[OF ns nb p1 b[symmetric] cl p2 bb[symmetric] k this]
              show ?thesis .
            next
              case False
              with ns nb res p1 b cl p2 bb have "e = NonStringKey"
                by (cases key) (simp_all del: JsonNode_parse.simps)
              then show ?thesis by (simp add: ParseError_def)
            qed
          qed
        qed
      qed
    qed
  qed
qed


text \<open>
  An error other than an unexpected end of file, and a value that leaves input unread, do
  not depend on what follows in the stream.
\<close>

lemma parse_extend_rest:
  assumes "JsonNode_parse f = Inr (v, r)" and "r \<noteq> []"
  shows "JsonNode_parse (f @ t) = Inr (v, r @ t)"
proof -
  from parse_frame(1)[OF assms(1)] obtain c where
    c: "f = c @ r" "number_end v r"
      "\<forall>t'. number_end v t' \<longrightarrow> JsonNode_parse (c @ t') = Inr (v, t')" by blast
  from number_end_append[of v r "[]" t] c(2) assms(2) have "number_end v (r @ t)" by simp
  with c(1,3) show ?thesis by simp
qed

lemma number_parse_extend:
  "JsonNode_parse f = Inr (v, r) \<Longrightarrow> node_type v = CHR ''N'' \<Longrightarrow>
     \<exists>n r'. JsonNode_parse (f @ t) = Inr (JNumber n, r')"
proof (induction f)
  case Nil
  then show ?case by simp
next
  case (Cons ch f)
  show ?case
  proof (cases "is_space ch")
    case True
    with Cons show ?thesis by simp
  next
    case ns: False
    show ?thesis
    proof (cases "is_digit ch \<and> ch \<noteq> CHR 0x22")
      case True
      with ns show ?thesis by (simp split: prod.splits)
    next
      case False
      with ns Cons.prems show ?thesis
        by (auto split: if_splits sum.splits prod.splits)
    qed
  qed
qed

lemma parse_extend_success:
  assumes "JsonNode_parse f = Inr (v, r)"
  shows "\<exists>v' r'. JsonNode_parse (f @ t) = Inr (v', r')"
proof (cases "node_type v = CHR ''N''")
  case True
  from number_parse_extend[OF assms True] show ?thesis by blast
next
  case False
  from parse_frame(1)[OF assms] obtain c where
    c: "f = c @ r" "\<forall>t'. number_end v t' \<longrightarrow> JsonNode_parse (c @ t') = Inr (v, t')" by blast
  from False have "number_end v (r @ t)" by (simp add: number_end_def)
  with c show ?thesis by simp
qed

lemma colon_loop_extend:
  assumes "colon_loop f = Inr r"
  shows "colon_loop (f @ t) = Inr (r @ t)"
proof -
  from colon_loop_frame[OF assms] obtain c where
    c: "f = c @ r" "r \<noteq> []"
      "\<forall>t'. t' \<noteq> [] \<and> hd t' = hd r \<longrightarrow> colon_loop (c @ t') = Inr t'" by blast
  from c(2) have "r @ t \<noteq> [] \<and> hd (r @ t) = hd r" by simp
  with c(1,3) show ?thesis by simp
qed


lemma error_stable:
  "JsonNode_parse f = Inl e \<Longrightarrow> \<not> UnexpectedEOF e \<Longrightarrow> JsonNode_parse (f @ t) = Inl e"
  "array_loop a f = Inl e \<Longrightarrow> \<not> UnexpectedEOF e \<Longrightarrow> array_loop a (f @ t) = Inl e"
  "dict_loop d f = Inl e \<Longrightarrow> \<not> UnexpectedEOF e \<Longrightarrow> dict_loop d (f @ t) = Inl e"
proof (induction f and a f and d f arbitrary: e and e and e
    rule: JsonNode_parse_array_loop_dict_loop.induct)
  case 1
  then show ?case by (simp add: UnexpectedEOF_def)
next
  case (2 ch f)
  note res = "2.prems"(1) and ne = "2.prems"(2)
  show ?case
  proof (cases "is_space ch")
    case True
    with res have "JsonNode_parse f = Inl e" by simp
    from "2.IH"(1)[OF True this ne] True show ?thesis by simp
  next
    case ns: False
    show ?thesis
    proof (cases "ch = CHR 0x22")
      case True
      with ns res have "string_loop [] f = Inl e" by (simp split: sum.splits prod.splits)
      from string_loop_error[OF this] ne show ?thesis by (simp add: UnexpectedEOF_def)
    next
      case nq: False
      show ?thesis
      proof (cases "is_digit ch")
        case True
        with ns nq res show ?thesis by (simp split: prod.splits)
      next
        case nd: False
        show ?thesis
        proof (cases "ch = CHR ''[''")
          case True
          with ns nq nd res have "array_loop [] f = Inl e"
            by (simp split: sum.splits prod.splits)
          from "2.IH"(2)[OF ns nq nd True this ne] ns nq nd True show ?thesis by simp
        next
          case nb: False
          show ?thesis
          proof (cases "ch = CHR ''{''")
            case True
            with ns nq nd nb res have "dict_loop [] f = Inl e"
              by (simp split: sum.splits prod.splits)
            from "2.IH"(3)[OF ns nq nd nb True this ne] ns nq nd nb True show ?thesis by simp
          next
            case False
            with ns nq nd nb res show ?thesis by simp
          qed
        qed
      qed
    qed
  qed
next
  case (3 a)
  then show ?case by (simp add: UnexpectedEOF_def)
next
  case (4 a ch f)
  note res = "4.prems"(1) and ne = "4.prems"(2)
  show ?case
  proof (cases "is_space ch \<or> ch = CHR '',''")
    case True
    with res have "array_loop a f = Inl e" by simp
    from "4.IH"(1)[OF True this ne] True show ?thesis by simp
  next
    case ns: False
    show ?thesis
    proof (cases "ch = CHR '']''")
      case True
      with ns res show ?thesis by simp
    next
      case nb: False
      have unfold: "array_loop a ((ch # f) @ t) =
          (case JsonNode_parse (ch # f @ t) of
             Inl e \<Rightarrow> Inl e | Inr (v, f') \<Rightarrow> array_loop (a @ [v]) f')"
        using ns nb by (simp del: JsonNode_parse.simps)
      show ?thesis
      proof (cases "JsonNode_parse (ch # f)")
        case (Inl e1)
        with ns nb res have "e = e1" by (simp del: JsonNode_parse.simps)
        with "4.IH"(2)[OF ns nb Inl] ne have "JsonNode_parse (ch # f @ t) = Inl e" by simp
        with unfold show ?thesis by (simp del: JsonNode_parse.simps)
      next
        case (Inr b)
        obtain v f' where b: "b = (v, f')" by (cases b)
        with ns nb res Inr have l: "array_loop (a @ [v]) f' = Inl e"
          by (simp del: JsonNode_parse.simps)
        with ne have "f' \<noteq> []" by (auto simp: UnexpectedEOF_def)
        from parse_extend_rest[OF _ this, of "ch # f" v t] Inr b
        have "JsonNode_parse (ch # f @ t) = Inr (v, f' @ t)" by simp
        with unfold "4.IH"(3)[OF ns nb Inr b[symmetric] l ne] show ?thesis
          by (simp del: JsonNode_parse.simps)
      qed
    qed
  qed
next
  case (5 d)
  then show ?case by (simp add: UnexpectedEOF_def)
next
  case (6 d ch f)
  note res = "6.prems"(1) and ne = "6.prems"(2)
  show ?case
  proof (cases "is_space ch \<or> ch = CHR '',''")
    case True
    with res have "dict_loop d f = Inl e" by simp
    from "6.IH"(1)[OF True this ne] True show ?thesis by simp
  next
    case ns: False
    show ?thesis
    proof (cases "ch = CHR ''}''")
      case True
      with ns res show ?thesis by simp
    next
      case nb: False
      have unfold: "dict_loop d ((ch # f) @ t) =
          (case JsonNode_parse (ch # f @ t) of
             Inl e \<Rightarrow> Inl e
           | Inr (key, f1) \<Rightarrow>
              (case colon_loop f1 of
                 Inl e \<Rightarrow> Inl e
               | Inr f2 \<Rightarrow>
                  (case JsonNode_parse f2 of
                     Inl e \<Rightarrow> Inl e
                   | Inr (val, f3) \<Rightarrow>
                      (case key of
                         JString k \<Rightarrow> dict_loop (dict_set d k val) f3
                       | _ \<Rightarrow> Inl NonStringKey))))"
        using ns nb by (simp del: JsonNode_parse.simps)
      show ?thesis
      proof (cases "JsonNode_parse (ch # f)")
        case (Inl e1)
        with ns nb res have "e = e1" by (simp del: JsonNode_parse.simps)
        with "6.IH"(2)[OF ns nb Inl] ne have "JsonNode_parse (ch # f @ t) = Inl e" by simp
        with unfold show ?thesis by (simp del: JsonNode_parse.simps)
      next
        case p1: (Inr b)
        obtain key f1 where b: "b = (key, f1)" by (cases b)
        show ?thesis
        proof (cases "colon_loop f1")
          case (Inl e1)
          with ns nb res p1 b have "e = e1" by (simp del: JsonNode_parse.simps)
          with colon_loop_error[OF Inl] ne show ?thesis by (simp add: UnexpectedEOF_def)
        next
          case cl: (Inr f2)
          then have "f1 \<noteq> []" by auto
          from parse_extend_rest[OF _ this, of "ch # f" key t] p1 b
          have k1: "JsonNode_parse (ch # f @ t) = Inr (key, f1 @ t)" by simp
          from colon_loop_extend[OF cl] have k2: "colon_loop (f1 @ t) = Inr (f2 @ t)" .
          show ?thesis
          proof (cases "JsonNode_parse f2")
            case (Inl e2)
            with ns nb res p1 b cl have "e = e2" by (simp del: JsonNode_parse.simps)
            with "6.IH"(3)[OF ns nb p1 b[symmetric] cl Inl] ne
            have "JsonNode_parse (f2 @ t) = Inl e" by simp
            with unfold k1 k2 show ?thesis by (simp del: JsonNode_parse.simps)
          next
            case p2: (Inr bb)
            obtain val f3 where bb: "bb = (val, f3)" by (cases bb)
            show ?thesis
            proof (cases "\<exists>k. key = JString k")
              case True
              then obtain k where k: "key = JString k" by blast
              with ns nb res p1 b cl p2 bb have l: "dict_loop (dict_set d k val) f3 = Inl e"
                by (simp del: JsonNode_parse.simps)
              with ne have "f3 \<noteq> []" by (auto simp: UnexpectedEOF_def)
              from parse_extend_rest[OF _ this, of f2 val t] p2 bb
              have k3: "JsonNode_parse (f2 @ t) = Inr (val, f3 @ t)" by simp
              from "6.IH"(4)[OF ns nb p1 b[symmetric] cl p2 bb[symmetric] k l ne]
                unfold k1 k2 k3 k
              show ?thesis by (simp del: JsonNode_parse.simps)
            next
              case False
              with ns nb res p1 b cl p2 bb have e: "e = NonStringKey"
                by (cases key) (simp_all del: JsonNode_parse.simps)
              from parse_extend_success[of f2 val f3 t] p2 bb obtain v' r' where
                k3: "JsonNode_parse (f2 @ t) = Inr (v', r')" by auto
              from False unfold k1 k2 k3 e show ?thesis
                by (cases key) (simp_all del: JsonNode_parse.simps)
            qed
          qed
        qed
      qed
    qed
  qed
qed


lemma truncated_parse:
  assumes full: "JsonNode_parse (p @ q @ r) = Inr (v, r)" and q: "q \<noteq> []"
  shows "(\<exists>e. JsonNode_parse p = Inl e \<and> UnexpectedEOF e)
         \<or> (node_type v = CHR ''N'' \<and> (\<exists>m. JsonNode_parse p = Inr (JNumber m, [])))"
proof (cases "JsonNode_parse p")
  case (Inl e)
  have "UnexpectedEOF e"
  proof (rule ccontr)
    assume "\<not> UnexpectedEOF e"
    from error_stable(1)[OF Inl this, of "q @ r"] full show False by simp
  qed
  with Inl show ?thesis by blast
next
  case (Inr b)
  obtain v' r' where b: "b = (v', r')" by (cases b)
  with Inr have p': "JsonNode_parse p = Inr (v', r')" by simp
  from parse_frame(1)[OF p'] obtain c where
    c: "p = c @ r'" "number_end v' r'"
      "\<forall>t. number_end v' t \<longrightarrow> JsonNode_parse (c @ t) = Inr (v', t)" by blast
  have not_end: "\<not> number_end v' (r' @ q @ r)"
  proof
    assume "number_end v' (r' @ q @ r)"
    with c(3) have "JsonNode_parse (c @ r' @ q @ r) = Inr (v', r' @ q @ r)" by blast
    with c(1) full have "r = r' @ q @ r" by simp
    then have "length r = length r' + length q + length r" by (metis length_append add.assoc)
    with q show False by simp
  qed
  then have n: "node_type v' = CHR ''N''" by (auto simp: number_end_def)
  then obtain m where m: "v' = JNumber m" by (cases v') auto
  have "r' = []"
  proof (rule ccontr)
    assume "r' \<noteq> []"
    from number_end_append[of v' r' "[]" "q @ r"] c(2) this not_end show False by simp
  qed
  from number_parse_extend[OF p' n, of "q @ r"] full have "node_type v = CHR ''N''" by auto
  with p' m \<open>r' = []\<close> show ?thesis by blast
qed

text \<open>
  C9, as stated, fails for a document that is a number: line 83 ends a number at the end of
  the input, so the number 12 cut down to its first character is the number 1 and no
  unexpected end of file.
\<close>

theorem truncated_number_is_a_value:
  "JsonNode_parse ''12'' = Inr (JNumber 12, [])
   \<and> JsonNode_parse ''1'' = Inr (JNumber 1, [])
   \<and> \<not> (\<exists>e. JsonNode_parse ''1'' = Inl e \<and> UnexpectedEOF e)"
  by (simp add: is_space_def is_digit_def digit_val_def)

text \<open>
  C9, amended: the parser is a total function of its input (the length of the stream not
  yet read decreases along every recursive call): on every input it fails with one of the
  four parse errors or yields a value, having consumed a non-empty prefix of the input. When
  the parser yields a value that is not a number, every proper prefix of the text it
  consumed fails with an unexpected end of file, in the parser and so in the frontend; when
  it yields a number, a proper prefix of the consumed text fails in that way or is a
  shorter number that ends with the input.
\<close>

theorem parser_terminates:
  "((\<exists>e. JsonNode_parse f = Inl e \<and> ParseError e)
      \<or> (\<exists>v c r. JsonNode_parse f = Inr (v, r) \<and> f = c @ r \<and> c \<noteq> []))
   \<and> (JsonNode_parse (p @ q @ r) = Inr (v, r) \<and> q \<noteq> [] \<and> node_type v \<noteq> CHR ''N'' \<longrightarrow>
        (\<exists>e. JsonNode_parse p = Inl e \<and> UnexpectedEOF e))
   \<and> (JsonNode_parse (p @ q @ r) = Inr (v, r) \<and> q \<noteq> [] \<and> node_type v = CHR ''N'' \<longrightarrow>
        (\<exists>e. JsonNode_parse p = Inl e \<and> UnexpectedEOF e)
        \<or> (\<exists>m. JsonNode_parse p = Inr (JNumber m, [])))
   \<and> (JsonNode_parse (p @ q @ r) = Inr (v, r) \<and> q \<noteq> [] \<and> node_type v = CHR ''D'' \<longrightarrow>
        (\<exists>e. execute h p ys = Inl e \<and> UnexpectedEOF e))"
proof (intro conjI impI)
  show "(\<exists>e. JsonNode_parse f = Inl e \<and> ParseError e)
      \<or> (\<exists>v c r. JsonNode_parse f = Inr (v, r) \<and> f = c @ r \<and> c \<noteq> [])"
  proof (cases "JsonNode_parse f")
    case (Inl e)
    with parse_error_class(1)[OF Inl] show ?thesis by blast
  next
    case (Inr b)
    obtain v r where "b = (v, r)" by (cases b)
    with Inr have "JsonNode_parse f = Inr (v, r)" by simp
    from parse_frame(1)[OF this] this show ?thesis by blast
  qed
next
  assume "JsonNode_parse (p @ q @ r) = Inr (v, r) \<and> q \<noteq> [] \<and> node_type v \<noteq> CHR ''N''"
  with truncated_parse[of p q r v]
  show "\<exists>e. JsonNode_parse p = Inl e \<and> UnexpectedEOF e" by blast
next
  assume "JsonNode_parse (p @ q @ r) = Inr (v, r) \<and> q \<noteq> [] \<and> node_type v = CHR ''N''"
  with truncated_parse[of p q r v]
  show "(\<exists>e. JsonNode_parse p = Inl e \<and> UnexpectedEOF e)
        \<or> (\<exists>m. JsonNode_parse p = Inr (JNumber m, []))" by blast
next
  assume a: "JsonNode_parse (p @ q @ r) = Inr (v, r) \<and> q \<noteq> [] \<and> node_type v = CHR ''D''"
  then have "node_type v \<noteq> CHR ''N''" by simp
  with a truncated_parse[of p q r v] obtain e where
    "JsonNode_parse p = Inl e" "UnexpectedEOF e" by blast
  then show "\<exists>e. execute h p ys = Inl e \<and> UnexpectedEOF e"
    by (simp add: execute_def)
qed

theorem parser_terminates_witness:
  "JsonNode_parse (''{\"a\":[1'' @ '']}'' @ '' x'') = Inr (JDict [(''a'', JArray [JNumber 1])], '' x'')
   \<and> '']}'' \<noteq> []
   \<and> node_type (JDict [(''a'', JArray [JNumber 1])]) = CHR ''D''
   \<and> JsonNode_parse ''{\"a\":[1'' = Inl UnexpectedEOF_file
   \<and> execute example_host ''{\"a\":[1'' empty_design = Inl UnexpectedEOF_file
   \<and> UnexpectedEOF UnexpectedEOF_file
   \<and> JsonNode_parse (''1'' @ ''2'' @ '' '') = Inr (JNumber 12, '' '')
   \<and> JsonNode_parse ''1'' = Inr (JNumber 1, [])"
proof -
  let ?v = "JDict [(''a'', JArray [JNumber 1])]"
  have h1: "JsonNode_parse (''{\"a\":[1'' @ '']}'' @ '' x'') = Inr (?v, '' x'')"
    by (simp add: is_space_def is_digit_def digit_val_def)
  have h2: "'']}'' \<noteq> []" "node_type ?v = CHR ''D''" "node_type ?v \<noteq> CHR ''N''" by simp_all
  have e1: "JsonNode_parse ''{\"a\":[1'' = Inl UnexpectedEOF_file"
    by (simp add: is_space_def is_digit_def digit_val_def)
  have e2: "execute example_host ''{\"a\":[1'' empty_design = Inl UnexpectedEOF_file"
    unfolding execute_def e1 by simp
  have n1: "JsonNode_parse (''1'' @ ''2'' @ '' '') = Inr (JNumber 12, '' '')"
    and n2: "JsonNode_parse ''1'' = Inr (JNumber 1, [])"
    by (simp_all add: is_space_def is_digit_def digit_val_def)
  from parser_terminates [of "''{\"a\":[1''" "''{\"a\":[1''" "'']}''" "'' x''" ?v
      example_host empty_design] h1 h2
  have "\<exists>e. execute example_host ''{\"a\":[1'' empty_design = Inl e \<and> UnexpectedEOF e"
    by blast
  with e2 have u: "UnexpectedEOF UnexpectedEOF_file" by simp
  show ?thesis by (intro conjI h1 h2 e1 e2 n1 n2 u)
qed

end
